theory Spec2Isabelle
  imports Main "HOL-Library.Sublist"
begin

section \<open>Object graphs\<close>

text \<open>
  The library works on JavaScript object graphs. A graph is a heap: a list of objects, an
  object's address being its index. A value is a primitive or a reference into the heap.
  Numbers are modelled as integers; no operation of the library looks inside a primitive.
\<close>

type_synonym addr = nat

datatype prim = PString string | PNumber int | PBoolean bool | PBigInt int | PSymbol nat

datatype val = VUndefined | VNull | VPrim prim | VRef addr

datatype error =
    Thrown val
  | RangeError
  | TypeError
  | FrozenAssertionError string val

datatype pkey = KStr string | KSym nat

text \<open>
  An own property is a data property or an accessor. Reading an accessor runs its getter,
  which returns a value or throws; the getter itself is not modelled beyond that result.
\<close>

datatype slot = Data val | Accessor "error + val"

record property =
  pname :: pkey
  enumerable :: bool
  slot :: slot

text \<open>
  The shapes the traversals tell apart, with the data each carries: an array's elements, a
  Map's entries in iteration order, a Set's members in iteration order, a Date's epoch value,
  a RegExp's source and flags. \<open>KPlain\<close> has \<open>Object.prototype\<close> as prototype, \<open>KNullProto\<close>
  has none, \<open>KCustom p\<close> has the object at address \<open>p\<close> as prototype, \<open>KFunction\<close> is a
  callable. The built-in prototypes carry no member named \<open>freeze\<close>.
\<close>

datatype kind =
    KArray "val list"
  | KMap "(val \<times> val) list"
  | KSet "val list"
  | KDate int
  | KRegExp string string
  | KPlain
  | KNullProto
  | KCustom addr
  | KFunction

text \<open>
  \<open>frozen\<close> is the answer of \<open>Object.isFrozen\<close> for the object: not extensible, and every own
  property neither configurable nor writable.
\<close>

record obj =
  kind :: kind
  frozen :: bool
  props :: "property list"

type_synonym heap = "obj list"

definition heap_get :: "heap \<Rightarrow> addr \<Rightarrow> obj option" where
  "heap_get h a = (if a < length h then Some (h ! a) else None)"

datatype jstype =
  TUndefined | TObject | TFunction | TString | TNumber | TBoolean | TBigInt | TSymbol

text \<open>The \<open>typeof\<close> operator. A reference outside the heap denotes nothing and reads as undefined.\<close>

definition typeof :: "heap \<Rightarrow> val \<Rightarrow> jstype" where
  "typeof h v =
     (case v of
        VUndefined \<Rightarrow> TUndefined
      | VNull \<Rightarrow> TObject
      | VPrim p \<Rightarrow>
          (case p of PString s \<Rightarrow> TString | PNumber n \<Rightarrow> TNumber | PBoolean b \<Rightarrow> TBoolean
           | PBigInt n \<Rightarrow> TBigInt | PSymbol n \<Rightarrow> TSymbol)
      | VRef a \<Rightarrow>
          (case heap_get h a of
             None \<Rightarrow> TUndefined
           | Some ob \<Rightarrow> if kind ob = KFunction then TFunction else TObject))"

text \<open>\<open>Object.isFrozen\<close>: true for every value that is not an object.\<close>

definition Object_isFrozen :: "heap \<Rightarrow> val \<Rightarrow> bool" where
  "Object_isFrozen h v =
     (case v of VRef a \<Rightarrow> (case heap_get h a of None \<Rightarrow> True | Some ob \<Rightarrow> frozen ob)
      | _ \<Rightarrow> True)"

text \<open>\<open>Object.freeze\<close> on the object at an address.\<close>

definition Object_freeze :: "heap \<Rightarrow> addr \<Rightarrow> heap" where
  "Object_freeze h a = h[a := (h ! a)\<lparr>frozen := True\<rparr>]"

fun is_string_key :: "pkey \<Rightarrow> bool" where
  "is_string_key (KStr s) = True"
| "is_string_key (KSym n) = False"

definition Object_keys :: "obj \<Rightarrow> property list" where
  "Object_keys ob = filter (\<lambda>p. is_string_key (pname p) \<and> enumerable p) (props ob)"

definition Object_getOwnPropertyNames :: "obj \<Rightarrow> property list" where
  "Object_getOwnPropertyNames ob = filter (\<lambda>p. is_string_key (pname p)) (props ob)"

definition Object_getOwnPropertySymbols :: "obj \<Rightarrow> property list" where
  "Object_getOwnPropertySymbols ob = filter (\<lambda>p. \<not> is_string_key (pname p)) (props ob)"

text \<open>Reading an own property: \<open>obj[key]\<close>.\<close>

fun read_slot :: "slot \<Rightarrow> error + val" where
  "read_slot (Data v) = Inr v"
| "read_slot (Accessor r) = r"

definition read_prop :: "property \<Rightarrow> error + val" where
  "read_prop p = read_slot (slot p)"

text \<open>
  Member lookup through the prototype chain (\<open>key in obj\<close>, \<open>obj.key\<close>). A chain in a heap of
  \<open>n\<close> objects has at most \<open>n\<close> links, which bounds the walk.
\<close>

fun find_property :: "pkey \<Rightarrow> property list \<Rightarrow> property option" where
  "find_property k [] = None"
| "find_property k (p # ps) = (if pname p = k then Some p else find_property k ps)"

fun lookup_chain :: "nat \<Rightarrow> heap \<Rightarrow> addr \<Rightarrow> pkey \<Rightarrow> property option" where
  "lookup_chain 0 h a k = None"
| "lookup_chain (Suc n) h a k =
     (case heap_get h a of
        None \<Rightarrow> None
      | Some ob \<Rightarrow>
          (case find_property k (props ob) of
             Some p \<Rightarrow> Some p
           | None \<Rightarrow> (case kind ob of KCustom p \<Rightarrow> lookup_chain n h p k | _ \<Rightarrow> None)))"

definition has_member :: "heap \<Rightarrow> addr \<Rightarrow> pkey \<Rightarrow> bool" where
  "has_member h a k = (lookup_chain (length h) h a k \<noteq> None)"

definition get_member :: "heap \<Rightarrow> addr \<Rightarrow> pkey \<Rightarrow> error + val" where
  "get_member h a k =
     (case lookup_chain (length h) h a k of None \<Rightarrow> Inr VUndefined | Some p \<Rightarrow> read_prop p)"

text \<open>
  Assignment, addition and deletion of a property in strict mode, as the callers of the
  library perform them: a frozen object rejects each with a \<open>TypeError\<close>.
\<close>

definition assign_property :: "heap \<Rightarrow> addr \<Rightarrow> pkey \<Rightarrow> val \<Rightarrow> error + heap" where
  "assign_property h a k v =
     (case heap_get h a of
        None \<Rightarrow> Inl TypeError
      | Some ob \<Rightarrow>
          if frozen ob then Inl TypeError
          else Inr (h[a := ob\<lparr>props :=
                 (if find_property k (props ob) = None
                  then props ob @ [\<lparr>pname = k, enumerable = True, slot = Data v\<rparr>]
                  else map (\<lambda>p. if pname p = k then p\<lparr>slot := Data v\<rparr> else p) (props ob))\<rparr>]))"

definition delete_property :: "heap \<Rightarrow> addr \<Rightarrow> pkey \<Rightarrow> error + heap" where
  "delete_property h a k =
     (case heap_get h a of
        None \<Rightarrow> Inl TypeError
      | Some ob \<Rightarrow>
          if frozen ob \<and> find_property k (props ob) \<noteq> None then Inl TypeError
          else Inr (h[a := ob\<lparr>props := filter (\<lambda>p. pname p \<noteq> k) (props ob)\<rparr>]))"

section \<open>The freeze engine (freeze.ts)\<close>

text \<open>
  \<open>isFreezable\<close> of types.ts: a non-null value of type object with a member \<open>freeze\<close>, own or
  inherited, whose value is a function. Reading the member may run a getter.
\<close>

definition isFreezable :: "heap \<Rightarrow> val \<Rightarrow> error + bool" where
  "isFreezable h v =
     (case v of
        VRef a \<Rightarrow>
          if typeof h v = TObject \<and> has_member h a (KStr ''freeze'')
          then (case get_member h a (KStr ''freeze'') of
                  Inl e \<Rightarrow> Inl e
                | Inr m \<Rightarrow> Inr (typeof h m = TFunction))
          else Inr False
      | _ \<Rightarrow> Inr False)"

text \<open>
  The test every push site applies to a child:
  \<open>value !== null && value !== undefined && typeof value === "object"\<close>.
\<close>

definition is_object_child :: "heap \<Rightarrow> val \<Rightarrow> bool" where
  "is_object_child h v = (v \<noteq> VNull \<and> v \<noteq> VUndefined \<and> typeof h v = TObject)"

fun pushed :: "heap \<Rightarrow> val list \<Rightarrow> addr list" where
  "pushed h [] = []"
| "pushed h (v # vs) =
     (case v of
        VRef a \<Rightarrow> if is_object_child h v then a # pushed h vs else pushed h vs
      | _ \<Rightarrow> pushed h vs)"

text \<open>Property reads in a loop without a handler: the first throwing read ends the loop.\<close>

fun read_all :: "property list \<Rightarrow> error + val list" where
  "read_all [] = Inr []"
| "read_all (p # ps) =
     (case read_prop p of
        Inl e \<Rightarrow> Inl e
      | Inr v \<Rightarrow> (case read_all ps of Inl e \<Rightarrow> Inl e | Inr vs \<Rightarrow> Inr (v # vs)))"

text \<open>Property reads inside \<open>try { ... } catch { }\<close>: a throwing read is skipped.\<close>

fun read_guarded :: "property list \<Rightarrow> val list" where
  "read_guarded [] = []"
| "read_guarded (p # ps) =
     (case read_prop p of Inl e \<Rightarrow> read_guarded ps | Inr v \<Rightarrow> v # read_guarded ps)"

fun flatten_entries :: "(val \<times> val) list \<Rightarrow> val list" where
  "flatten_entries [] = []"
| "flatten_entries ((k, v) # es) = k # v # flatten_entries es"

text \<open>
  The children one iteration of the loop pushes for the object it popped, in push order,
  by the branch of the object's shape; an exception of a read outside a handler leaves
  the loop.
\<close>

definition scheduled :: "heap \<Rightarrow> obj \<Rightarrow> error + addr list" where
  "scheduled h ob =
     (case kind ob of
        KArray items \<Rightarrow> Inr (pushed h items)
      | KPlain \<Rightarrow>
          (case read_all (Object_keys ob @ Object_getOwnPropertySymbols ob) of
             Inl e \<Rightarrow> Inl e | Inr vs \<Rightarrow> Inr (pushed h vs))
      | KNullProto \<Rightarrow>
          (case read_all (Object_keys ob @ Object_getOwnPropertySymbols ob) of
             Inl e \<Rightarrow> Inl e | Inr vs \<Rightarrow> Inr (pushed h vs))
      | KMap es \<Rightarrow> Inr (pushed h (flatten_entries es))
      | KSet items \<Rightarrow> Inr (pushed h items)
      | KDate t \<Rightarrow> Inr []
      | KRegExp src fl \<Rightarrow> Inr []
      | KCustom p \<Rightarrow>
          Inr (pushed h (read_guarded (Object_getOwnPropertyNames ob @ Object_getOwnPropertySymbols ob)))
      | KFunction \<Rightarrow>
          Inr (pushed h (read_guarded (Object_getOwnPropertyNames ob @ Object_getOwnPropertySymbols ob))))"

definition scheduled_at :: "heap \<Rightarrow> addr \<Rightarrow> error + addr list" where
  "scheduled_at h a = (case heap_get h a of None \<Rightarrow> Inr [] | Some ob \<Rightarrow> scheduled h ob)"

definition unfrozen_count :: "heap \<Rightarrow> nat" where
  "unfrozen_count h = length (filter (\<lambda>ob. \<not> frozen ob) h)"

lemma unfrozen_count_freeze:
  "a < length h \<Longrightarrow> \<not> frozen (h ! a) \<Longrightarrow> unfrozen_count (Object_freeze h a) < unfrozen_count h"
proof (induction h arbitrary: a)
  case Nil
  then show ?case by simp
next
  case (Cons ob h)
  show ?case
  proof (cases a)
    case 0
    with Cons.prems show ?thesis by (simp add: unfrozen_count_def Object_freeze_def)
  next
    case (Suc b)
    with Cons.prems have "unfrozen_count (Object_freeze h b) < unfrozen_count h"
      using Cons.IH [of b] by simp
    with Suc show ?thesis by (simp add: unfrozen_count_def Object_freeze_def)
  qed
qed

text \<open>
  The \<open>while (stack.length > 0)\<close> loop. The work stack is a list whose head is the top, so
  pushing \<open>c1, ..., cn\<close> in this order puts \<open>rev [c1, ..., cn]\<close> in front. The result is the
  exception that left the loop, if any, and the heap as the loop left it.
\<close>

function freeze_loop :: "heap \<Rightarrow> addr list \<Rightarrow> addr set \<Rightarrow> error option \<times> heap" where
  "freeze_loop h [] visited = (None, h)"
| "freeze_loop h (currentObj # stack) visited =
     (if currentObj \<in> visited \<or> Object_isFrozen h (VRef currentObj)
      then freeze_loop h stack visited
      else (case scheduled_at h currentObj of
              Inl e \<Rightarrow> (Some e, h)
            | Inr cs \<Rightarrow>
                freeze_loop (Object_freeze h currentObj) (rev cs @ stack)
                  (insert currentObj visited)))"
  by pat_completeness auto
termination
proof (relation "measures [\<lambda>(h, st, vis). unfrozen_count h, \<lambda>(h, st, vis). length st]")
  show "wf (measures [\<lambda>(h::heap, st::addr list, vis::addr set). unfrozen_count h,
                      \<lambda>(h, st, vis). length st])"
    by simp
next
  fix h :: heap and currentObj :: addr and stack :: "addr list" and visited :: "addr set"
  show "((h, stack, visited), (h, currentObj # stack, visited))
        \<in> measures [\<lambda>(h, st, vis). unfrozen_count h, \<lambda>(h, st, vis). length st]"
    by simp
next
  fix h :: heap and currentObj :: addr and stack :: "addr list" and visited :: "addr set"
    and cs :: "addr list"
  assume "\<not> (currentObj \<in> visited \<or> Object_isFrozen h (VRef currentObj))"
  then have "currentObj < length h" and "\<not> frozen (h ! currentObj)"
    by (auto simp: Object_isFrozen_def heap_get_def split: if_splits)
  then have "unfrozen_count (Object_freeze h currentObj) < unfrozen_count h"
    by (rule unfrozen_count_freeze)
  then show "((Object_freeze h currentObj, rev cs @ stack, insert currentObj visited),
              (h, currentObj # stack, visited))
        \<in> measures [\<lambda>(h, st, vis). unfrozen_count h, \<lambda>(h, st, vis). length st]"
    by simp
qed

text \<open>
  The effect of calling a function object with a receiver: its result or exception, and
  the heap it leaves. The library calls user code only in \<open>obj.freeze()\<close>.
\<close>

type_synonym call_sem = "addr \<Rightarrow> addr \<Rightarrow> heap \<Rightarrow> (error + val) \<times> heap"

definition invoke_freeze :: "call_sem \<Rightarrow> heap \<Rightarrow> addr \<Rightarrow> (error + val) \<times> heap" where
  "invoke_freeze call h a =
     (case get_member h a (KStr ''freeze'') of
        Inl e \<Rightarrow> (Inl e, h)
      | Inr m \<Rightarrow>
          (case m of
             VRef f \<Rightarrow> if typeof h m = TFunction then call f a h else (Inl TypeError, h)
           | _ \<Rightarrow> (Inl TypeError, h)))"

definition freeze :: "call_sem \<Rightarrow> heap \<Rightarrow> val \<Rightarrow> (error + val) \<times> heap" where
  "freeze call h obj =
     (if obj = VNull \<or> obj = VUndefined then (Inr obj, h)
      else if typeof h obj \<noteq> TObject \<and> typeof h obj \<noteq> TFunction then (Inr obj, h)
      else if Object_isFrozen h obj then (Inr obj, h)
      else (case isFreezable h obj of
              Inl e \<Rightarrow> (Inl e, h)
            | Inr True \<Rightarrow> (case obj of VRef a \<Rightarrow> invoke_freeze call h a | _ \<Rightarrow> (Inr obj, h))
            | Inr False \<Rightarrow>
                (case obj of
                   VRef a \<Rightarrow>
                     (case freeze_loop h [a] {} of
                        (None, h') \<Rightarrow> (Inr obj, h')
                      | (Some e, h') \<Rightarrow> (Inl e, h'))
                 | _ \<Rightarrow> (Inr obj, h))))"

section \<open>Validation (validation.ts)\<close>

definition isShallowFrozen :: "heap \<Rightarrow> val \<Rightarrow> bool" where
  "isShallowFrozen h v =
     (if v = VNull \<or> v = VUndefined then True
      else if typeof h v \<noteq> TObject \<and> typeof h v \<noteq> TFunction then True
      else Object_isFrozen h v)"

text \<open>
  \<open>isFrozenImpl\<close>, \<open>findUnfrozenPathImpl\<close> and \<open>deepClone\<close> call themselves once per level of
  nesting. Their first argument is the number of call frames the platform still grants: a
  call with none left raises \<open>RangeError\<close> (call stack exhausted). The visited set is one
  \<open>WeakSet\<close> shared by all calls, so each call returns it as it left it.
\<close>

type_synonym 'a visiting = "(error + 'a) \<times> addr set"

text \<open>A loop over children that returns false at the first child that fails; no handler.\<close>

fun every_child :: "(val \<Rightarrow> addr set \<Rightarrow> bool visiting) \<Rightarrow> val list \<Rightarrow> addr set \<Rightarrow> bool visiting" where
  "every_child chk [] visited = (Inr True, visited)"
| "every_child chk (v # vs) visited =
     (case chk v visited of
        (Inl e, visited') \<Rightarrow> (Inl e, visited')
      | (Inr b, visited') \<Rightarrow> if b then every_child chk vs visited' else (Inr False, visited'))"

text \<open>
  The loop over own property names: the read and the recursive call both stand inside
  \<open>try { ... } catch { }\<close>, so whatever either throws skips the property.
\<close>

fun every_property ::
  "(val \<Rightarrow> addr set \<Rightarrow> bool visiting) \<Rightarrow> property list \<Rightarrow> addr set \<Rightarrow> bool visiting" where
  "every_property chk [] visited = (Inr True, visited)"
| "every_property chk (p # ps) visited =
     (case read_prop p of
        Inl e \<Rightarrow> every_property chk ps visited
      | Inr v \<Rightarrow>
          (case chk v visited of
             (Inl e, visited') \<Rightarrow> every_property chk ps visited'
           | (Inr b, visited') \<Rightarrow>
               if b then every_property chk ps visited' else (Inr False, visited')))"

primrec isFrozenImpl :: "nat \<Rightarrow> heap \<Rightarrow> val \<Rightarrow> addr set \<Rightarrow> bool visiting" where
  "isFrozenImpl 0 h v visited = (Inl RangeError, visited)"
| "isFrozenImpl (Suc d) h v visited =
     (if v = VNull \<or> v = VUndefined then (Inr True, visited)
      else if typeof h v \<noteq> TObject \<and> typeof h v \<noteq> TFunction then (Inr True, visited)
      else (case v of
              VRef a \<Rightarrow>
                (case heap_get h a of
                   None \<Rightarrow> (Inr True, visited)
                 | Some ob \<Rightarrow>
                     if a \<in> visited then (Inr True, visited)
                     else if \<not> Object_isFrozen h v then (Inr False, visited)
                     else (case kind ob of
                             KArray items \<Rightarrow>
                               every_child (isFrozenImpl d h) items (insert a visited)
                           | KMap es \<Rightarrow>
                               every_child (isFrozenImpl d h) (flatten_entries es) (insert a visited)
                           | KSet items \<Rightarrow>
                               every_child (isFrozenImpl d h) items (insert a visited)
                           | _ \<Rightarrow>
                               every_property (isFrozenImpl d h) (Object_getOwnPropertyNames ob)
                                 (insert a visited)))
            | _ \<Rightarrow> (Inr True, visited)))"

definition isFrozen :: "nat \<Rightarrow> heap \<Rightarrow> val \<Rightarrow> error + bool" where
  "isFrozen d h v = fst (isFrozenImpl d h v {})"

subsection \<open>Assertions\<close>

definition assertFrozen :: "nat \<Rightarrow> heap \<Rightarrow> val \<Rightarrow> string \<Rightarrow> error + unit" where
  "assertFrozen d h v name =
     (case isFrozen d h v of
        Inl e \<Rightarrow> Inl e
      | Inr b \<Rightarrow>
          if \<not> b
          then Inl (FrozenAssertionError
                 (''Expected '' @ name @ '' to be deeply frozen, but it is not. '' @
                  ''Use freeze() or frozenCopy() to create immutable data.'') v)
          else Inr ())"

definition assertShallowFrozen :: "heap \<Rightarrow> val \<Rightarrow> string \<Rightarrow> error + unit" where
  "assertShallowFrozen h v name =
     (if \<not> isShallowFrozen h v
      then Inl (FrozenAssertionError
             (''Expected '' @ name @ '' to be frozen at the top level, but it is not.'') v)
      else Inr ())"

definition assertMutable :: "heap \<Rightarrow> val \<Rightarrow> string \<Rightarrow> error + unit" where
  "assertMutable h v name =
     (if v \<noteq> VNull \<and> typeof h v = TObject \<and> Object_isFrozen h v
      then Inl (FrozenAssertionError
             (''Expected '' @ name @ '' to be mutable, but it is frozen. '' @
              ''Create a mutable copy if you need to modify it.'') v)
      else Inr ())"

subsection \<open>Path finding\<close>

text \<open>An array index in a template string: the decimal digits of the number.\<close>

definition digit_char :: "nat \<Rightarrow> char" where
  "digit_char n = ''0123456789'' ! n"

fun index_string :: "nat \<Rightarrow> string" where
  "index_string n =
     (if n < 10 then [digit_char n] else index_string (n div 10) @ [digit_char (n mod 10)])"

declare index_string.simps [simp del]

text \<open>
  \<open>String(key)\<close> for a Map key is the platform's conversion, which for an object runs the
  object's own \<open>toString\<close> and may throw; it is a parameter of the path finder.
\<close>

type_synonym to_string = "heap \<Rightarrow> val \<Rightarrow> error + string"

type_synonym finder = "val \<Rightarrow> string \<Rightarrow> addr set \<Rightarrow> (string option) visiting"

definition sub_path :: "string \<Rightarrow> string \<Rightarrow> string \<Rightarrow> string" where
  "sub_path path dotted bare = (if path \<noteq> [] then path @ dotted else bare)"

fun find_in_items :: "finder \<Rightarrow> string \<Rightarrow> nat \<Rightarrow> val list \<Rightarrow> addr set \<Rightarrow> (string option) visiting" where
  "find_in_items fnd path i [] visited = (Inr None, visited)"
| "find_in_items fnd path i (v # vs) visited =
     (case fnd v (sub_path path (''['' @ index_string i @ '']'') (''['' @ index_string i @ '']''))
             visited of
        (Inl e, visited') \<Rightarrow> (Inl e, visited')
      | (Inr (Some r), visited') \<Rightarrow> (Inr (Some r), visited')
      | (Inr None, visited') \<Rightarrow> find_in_items fnd path (Suc i) vs visited')"

fun find_in_entries ::
  "finder \<Rightarrow> (val \<Rightarrow> error + string) \<Rightarrow> string \<Rightarrow> nat \<Rightarrow> (val \<times> val) list \<Rightarrow> addr set
   \<Rightarrow> (string option) visiting" where
  "find_in_entries fnd str path i [] visited = (Inr None, visited)"
| "find_in_entries fnd str path i ((k, v) # es) visited =
     (case fnd k (sub_path path (''.keys()['' @ index_string i @ '']'')
                    (''keys()['' @ index_string i @ '']'')) visited of
        (Inl e, visited') \<Rightarrow> (Inl e, visited')
      | (Inr (Some r), visited') \<Rightarrow> (Inr (Some r), visited')
      | (Inr None, visited') \<Rightarrow>
          (case str k of
             Inl e \<Rightarrow> (Inl e, visited')
           | Inr s \<Rightarrow>
               (case fnd v (sub_path path (''.get('' @ s @ '')'') (''get('' @ s @ '')'')) visited' of
                  (Inl e, visited'') \<Rightarrow> (Inl e, visited'')
                | (Inr (Some r), visited'') \<Rightarrow> (Inr (Some r), visited'')
                | (Inr None, visited'') \<Rightarrow> find_in_entries fnd str path (Suc i) es visited'')))"

fun find_in_members :: "finder \<Rightarrow> string \<Rightarrow> nat \<Rightarrow> val list \<Rightarrow> addr set \<Rightarrow> (string option) visiting" where
  "find_in_members fnd path i [] visited = (Inr None, visited)"
| "find_in_members fnd path i (v # vs) visited =
     (case fnd v (sub_path path (''.values()['' @ index_string i @ '']'')
                    (''values()['' @ index_string i @ '']'')) visited of
        (Inl e, visited') \<Rightarrow> (Inl e, visited')
      | (Inr (Some r), visited') \<Rightarrow> (Inr (Some r), visited')
      | (Inr None, visited') \<Rightarrow> find_in_members fnd path (Suc i) vs visited')"

fun key_name :: "pkey \<Rightarrow> string" where
  "key_name (KStr s) = s"
| "key_name (KSym n) = []"

fun find_in_properties :: "finder \<Rightarrow> string \<Rightarrow> property list \<Rightarrow> addr set \<Rightarrow> (string option) visiting" where
  "find_in_properties fnd path [] visited = (Inr None, visited)"
| "find_in_properties fnd path (p # ps) visited =
     (case read_prop p of
        Inl e \<Rightarrow> find_in_properties fnd path ps visited
      | Inr v \<Rightarrow>
          (case fnd v (sub_path path (''.'' @ key_name (pname p)) (key_name (pname p))) visited of
             (Inl e, visited') \<Rightarrow> find_in_properties fnd path ps visited'
           | (Inr (Some r), visited') \<Rightarrow> (Inr (Some r), visited')
           | (Inr None, visited') \<Rightarrow> find_in_properties fnd path ps visited'))"

primrec findUnfrozenPathImpl ::
  "nat \<Rightarrow> to_string \<Rightarrow> heap \<Rightarrow> val \<Rightarrow> string \<Rightarrow> addr set \<Rightarrow> (string option) visiting" where
  "findUnfrozenPathImpl 0 str h v path visited = (Inl RangeError, visited)"
| "findUnfrozenPathImpl (Suc d) str h v path visited =
     (if v = VNull \<or> v = VUndefined then (Inr None, visited)
      else if typeof h v \<noteq> TObject \<and> typeof h v \<noteq> TFunction then (Inr None, visited)
      else (case v of
              VRef a \<Rightarrow>
                (case heap_get h a of
                   None \<Rightarrow> (Inr None, visited)
                 | Some ob \<Rightarrow>
                     if a \<in> visited then (Inr None, visited)
                     else if \<not> Object_isFrozen h v
                     then (Inr (Some (if path \<noteq> [] then path else ''(root)'')), visited)
                     else (case kind ob of
                             KArray items \<Rightarrow>
                               find_in_items (findUnfrozenPathImpl d str h) path 0 items
                                 (insert a visited)
                           | KMap es \<Rightarrow>
                               find_in_entries (findUnfrozenPathImpl d str h) (str h) path 0 es
                                 (insert a visited)
                           | KSet items \<Rightarrow>
                               find_in_members (findUnfrozenPathImpl d str h) path 0 items
                                 (insert a visited)
                           | _ \<Rightarrow>
                               find_in_properties (findUnfrozenPathImpl d str h) path
                                 (Object_getOwnPropertyNames ob) (insert a visited)))
            | _ \<Rightarrow> (Inr None, visited)))"

definition findUnfrozenPath :: "nat \<Rightarrow> to_string \<Rightarrow> heap \<Rightarrow> val \<Rightarrow> error + string option" where
  "findUnfrozenPath d str h v = fst (findUnfrozenPathImpl d str h v [] {})"

section \<open>Copying (copy.ts)\<close>

text \<open>
  The clone map is the \<open>WeakMap\<close> from a source object to its clone. A new object takes the
  next free address. The loops of \<open>deepClone\<close> read the source's children once: the function
  writes only to the clones it has allocated.
\<close>

type_synonym clone_map = "addr \<rightharpoonup> val"

type_synonym cloner = "heap \<Rightarrow> val \<Rightarrow> clone_map \<Rightarrow> (error + val) \<times> heap \<times> clone_map"

definition new_object :: "kind \<Rightarrow> obj" where
  "new_object k = \<lparr>kind = k, frozen = False, props = []\<rparr>"

text \<open>\<open>clone[i] = v\<close> on an array: an index past the end extends the array.\<close>

definition array_store :: "heap \<Rightarrow> addr \<Rightarrow> nat \<Rightarrow> val \<Rightarrow> heap" where
  "array_store h c i v =
     (case kind (h ! c) of
        KArray items \<Rightarrow>
          h[c := (h ! c)\<lparr>kind := KArray
                 (if i < length items then items[i := v]
                  else items @ replicate (i - length items) VUndefined @ [v])\<rparr>]
      | _ \<Rightarrow> h)"

fun entries_set :: "(val \<times> val) list \<Rightarrow> val \<Rightarrow> val \<Rightarrow> (val \<times> val) list" where
  "entries_set [] k v = [(k, v)]"
| "entries_set ((k', v') # es) k v = (if k' = k then (k', v) # es else (k', v') # entries_set es k v)"

text \<open>\<open>clone.set(k, v)\<close> on a Map and \<open>clone.add(v)\<close> on a Set.\<close>

definition map_store :: "heap \<Rightarrow> addr \<Rightarrow> val \<Rightarrow> val \<Rightarrow> heap" where
  "map_store h c k v =
     (case kind (h ! c) of
        KMap es \<Rightarrow> h[c := (h ! c)\<lparr>kind := KMap (entries_set es k v)\<rparr>]
      | _ \<Rightarrow> h)"

definition set_store :: "heap \<Rightarrow> addr \<Rightarrow> val \<Rightarrow> heap" where
  "set_store h c v =
     (case kind (h ! c) of
        KSet items \<Rightarrow> h[c := (h ! c)\<lparr>kind := KSet (if v \<in> set items then items else items @ [v])\<rparr>]
      | _ \<Rightarrow> h)"

text \<open>\<open>Object.defineProperty(clone, key, descriptor)\<close> on a clone under construction.\<close>

definition define_property :: "heap \<Rightarrow> addr \<Rightarrow> property \<Rightarrow> heap" where
  "define_property h c p =
     h[c := (h ! c)\<lparr>props :=
        (if find_property (pname p) (props (h ! c)) = None then props (h ! c) @ [p]
         else map (\<lambda>q. if pname q = pname p then p else q) (props (h ! c)))\<rparr>]"

text \<open>\<open>clone[key] = v\<close> on a clone under construction: an enumerable data property.\<close>

definition store_property :: "heap \<Rightarrow> addr \<Rightarrow> pkey \<Rightarrow> val \<Rightarrow> heap" where
  "store_property h c k v =
     (case assign_property h c k v of Inl e \<Rightarrow> h | Inr h' \<Rightarrow> h')"

fun clone_items :: "cloner \<Rightarrow> addr \<Rightarrow> nat \<Rightarrow> val list \<Rightarrow> heap \<Rightarrow> clone_map \<Rightarrow> error option \<times> heap \<times> clone_map" where
  "clone_items cl c i [] h visited = (None, h, visited)"
| "clone_items cl c i (v # vs) h visited =
     (case cl h v visited of
        (Inl e, h', visited') \<Rightarrow> (Some e, h', visited')
      | (Inr r, h', visited') \<Rightarrow> clone_items cl c (Suc i) vs (array_store h' c i r) visited')"

fun clone_entries :: "cloner \<Rightarrow> addr \<Rightarrow> (val \<times> val) list \<Rightarrow> heap \<Rightarrow> clone_map \<Rightarrow> error option \<times> heap \<times> clone_map" where
  "clone_entries cl c [] h visited = (None, h, visited)"
| "clone_entries cl c ((k, v) # es) h visited =
     (case cl h k visited of
        (Inl e, h', visited') \<Rightarrow> (Some e, h', visited')
      | (Inr rk, h', visited') \<Rightarrow>
          (case cl h' v visited' of
             (Inl e, h'', visited'') \<Rightarrow> (Some e, h'', visited'')
           | (Inr rv, h'', visited'') \<Rightarrow> clone_entries cl c es (map_store h'' c rk rv) visited''))"

fun clone_members :: "cloner \<Rightarrow> addr \<Rightarrow> val list \<Rightarrow> heap \<Rightarrow> clone_map \<Rightarrow> error option \<times> heap \<times> clone_map" where
  "clone_members cl c [] h visited = (None, h, visited)"
| "clone_members cl c (v # vs) h visited =
     (case cl h v visited of
        (Inl e, h', visited') \<Rightarrow> (Some e, h', visited')
      | (Inr r, h', visited') \<Rightarrow> clone_members cl c vs (set_store h' c r) visited')"

text \<open>The plain-object loops: \<open>clone[key] = deepClone(obj[key], visited)\<close>, no handler.\<close>

fun clone_assigned :: "cloner \<Rightarrow> addr \<Rightarrow> property list \<Rightarrow> heap \<Rightarrow> clone_map \<Rightarrow> error option \<times> heap \<times> clone_map" where
  "clone_assigned cl c [] h visited = (None, h, visited)"
| "clone_assigned cl c (p # ps) h visited =
     (case read_prop p of
        Inl e \<Rightarrow> (Some e, h, visited)
      | Inr v \<Rightarrow>
          (case cl h v visited of
             (Inl e, h', visited') \<Rightarrow> (Some e, h', visited')
           | (Inr r, h', visited') \<Rightarrow>
               clone_assigned cl c ps (store_property h' c (pname p) r) visited'))"

text \<open>
  The custom-prototype loops: the descriptor is copied; a data descriptor's value is cloned,
  an accessor descriptor is defined on the clone as it is, its getter not called.
\<close>

fun clone_described :: "cloner \<Rightarrow> addr \<Rightarrow> property list \<Rightarrow> heap \<Rightarrow> clone_map \<Rightarrow> error option \<times> heap \<times> clone_map" where
  "clone_described cl c [] h visited = (None, h, visited)"
| "clone_described cl c (p # ps) h visited =
     (case slot p of
        Data v \<Rightarrow>
          (case cl h v visited of
             (Inl e, h', visited') \<Rightarrow> (Some e, h', visited')
           | (Inr r, h', visited') \<Rightarrow>
               clone_described cl c ps (define_property h' c (p\<lparr>slot := Data r\<rparr>)) visited')
      | Accessor g \<Rightarrow> clone_described cl c ps (define_property h c p) visited)"

definition finish_clone :: "addr \<Rightarrow> error option \<times> heap \<times> clone_map \<Rightarrow> (error + val) \<times> heap \<times> clone_map" where
  "finish_clone c r =
     (case r of (None, h, visited) \<Rightarrow> (Inr (VRef c), h, visited)
      | (Some e, h, visited) \<Rightarrow> (Inl e, h, visited))"

primrec deepClone :: "nat \<Rightarrow> heap \<Rightarrow> val \<Rightarrow> clone_map \<Rightarrow> (error + val) \<times> heap \<times> clone_map" where
  "deepClone 0 h v visited = (Inl RangeError, h, visited)"
| "deepClone (Suc d) h v visited =
     (if v = VNull \<or> v = VUndefined then (Inr v, h, visited)
      else if typeof h v \<noteq> TObject \<and> typeof h v \<noteq> TFunction then (Inr v, h, visited)
      else if typeof h v = TFunction then (Inr v, h, visited)
      else (case v of
              VRef a \<Rightarrow>
                (case heap_get h a of
                   None \<Rightarrow> (Inr v, h, visited)
                 | Some ob \<Rightarrow>
                     (case visited a of
                        Some c \<Rightarrow> (Inr c, h, visited)
                      | None \<Rightarrow>
                          (case kind ob of
                             KDate t \<Rightarrow> (Inr (VRef (length h)), h @ [new_object (KDate t)], visited)
                           | KRegExp src fl \<Rightarrow>
                               (Inr (VRef (length h)), h @ [new_object (KRegExp src fl)], visited)
                           | KArray items \<Rightarrow>
                               finish_clone (length h)
                                 (clone_items (deepClone d) (length h) 0 items
                                    (h @ [new_object (KArray [])]) (visited(a \<mapsto> VRef (length h))))
                           | KMap es \<Rightarrow>
                               finish_clone (length h)
                                 (clone_entries (deepClone d) (length h) es
                                    (h @ [new_object (KMap [])]) (visited(a \<mapsto> VRef (length h))))
                           | KSet items \<Rightarrow>
                               finish_clone (length h)
                                 (clone_members (deepClone d) (length h) items
                                    (h @ [new_object (KSet [])]) (visited(a \<mapsto> VRef (length h))))
                           | KPlain \<Rightarrow>
                               finish_clone (length h)
                                 (clone_assigned (deepClone d) (length h)
                                    (Object_keys ob @ Object_getOwnPropertySymbols ob)
                                    (h @ [new_object KPlain]) (visited(a \<mapsto> VRef (length h))))
                           | KNullProto \<Rightarrow>
                               finish_clone (length h)
                                 (clone_assigned (deepClone d) (length h)
                                    (Object_keys ob @ Object_getOwnPropertySymbols ob)
                                    (h @ [new_object KNullProto]) (visited(a \<mapsto> VRef (length h))))
                           | KCustom p \<Rightarrow>
                               finish_clone (length h)
                                 (clone_described (deepClone d) (length h)
                                    (Object_getOwnPropertyNames ob @ Object_getOwnPropertySymbols ob)
                                    (h @ [new_object (KCustom p)]) (visited(a \<mapsto> VRef (length h))))
                           | KFunction \<Rightarrow> (Inr v, h, visited))))
            | _ \<Rightarrow> (Inr v, h, visited)))"

definition frozenCopy :: "nat \<Rightarrow> call_sem \<Rightarrow> heap \<Rightarrow> val \<Rightarrow> (error + val) \<times> heap" where
  "frozenCopy d call h obj =
     (case deepClone d h obj Map.empty of
        (Inl e, h', visited) \<Rightarrow> (Inl e, h')
      | (Inr copy, h', visited) \<Rightarrow> freeze call h' copy)"

section \<open>Example graphs\<close>

definition data_prop :: "string \<Rightarrow> val \<Rightarrow> property" where
  "data_prop n v = \<lparr>pname = KStr n, enumerable = True, slot = Data v\<rparr>"

definition symbol_prop :: "nat \<Rightarrow> val \<Rightarrow> property" where
  "symbol_prop n v = \<lparr>pname = KSym n, enumerable = True, slot = Data v\<rparr>"

definition plain_object :: "bool \<Rightarrow> property list \<Rightarrow> obj" where
  "plain_object fr ps = \<lparr>kind = KPlain, frozen = fr, props = ps\<rparr>"

definition function_object :: "bool \<Rightarrow> property list \<Rightarrow> obj" where
  "function_object fr ps = \<lparr>kind = KFunction, frozen = fr, props = ps\<rparr>"

definition array_object :: "bool \<Rightarrow> val list \<Rightarrow> obj" where
  "array_object fr items = \<lparr>kind = KArray items, frozen = fr, props = []\<rparr>"

text \<open>A custom \<open>freeze()\<close> that does nothing and returns \<open>undefined\<close>.\<close>

definition idle_call :: call_sem where
  "idle_call f a h = (Inr VUndefined, h)"

lemmas platform_defs =
  heap_get_def typeof_def Object_isFrozen_def Object_freeze_def Object_keys_def
  Object_getOwnPropertyNames_def Object_getOwnPropertySymbols_def read_prop_def
  has_member_def get_member_def is_object_child_def

lemmas example_defs =
  data_prop_def symbol_prop_def plain_object_def function_object_def array_object_def

section \<open>The deep-frozen predicate after freeze\<close>

text \<open>\<open>{ f: () => 42 }\<close>: a plain object whose only property holds a function.\<close>

definition method_graph :: heap where
  "method_graph = [plain_object False [data_prop ''f'' (VRef 1)], function_object False []]"

lemma freeze_method_graph:
  "freeze call method_graph (VRef 0) =
     (Inr (VRef 0), [plain_object True [data_prop ''f'' (VRef 1)], function_object False []])"
  by (simp add: freeze_def method_graph_def isFreezable_def scheduled_at_def scheduled_def
      platform_defs example_defs)

lemma pushed_is_object: "c \<in> set (pushed h vs) \<Longrightarrow> typeof h (VRef c) = TObject"
  by (induction vs) (auto simp: is_object_child_def split: val.splits if_splits)

lemma scheduled_is_object:
  "scheduled_at h a = Inr cs \<Longrightarrow> c \<in> set cs \<Longrightarrow> typeof h (VRef c) = TObject"
  by (auto simp: scheduled_at_def scheduled_def dest: pushed_is_object
      split: option.splits kind.splits sum.splits)

lemma isFrozenImpl_unfrozen_function:
  assumes "typeof h (VRef f) = TFunction" and "\<not> Object_isFrozen h (VRef f)" and "f \<notin> visited"
  shows "isFrozenImpl (Suc d) h (VRef f) visited = (Inr False, visited)"
proof -
  from assms(2) obtain ob where "heap_get h f = Some ob"
    by (auto simp: Object_isFrozen_def split: option.splits)
  with assms show ?thesis by simp
qed

text \<open>
  Claim C10. \<open>isFrozen\<close> after \<open>freeze\<close> is not always true. Every child the freeze loop
  schedules has type object, so a function held by a property is never pushed; the
  deep-frozen predicate answers false on every function it meets that is not frozen. On
  \<open>{ f: () => 42 }\<close> the call \<open>freeze\<close> returns its argument and freezes the object, the
  function stays unfrozen, and \<open>isFrozen\<close> answers false on the result, whatever user code
  does and for every call depth of at least two frames.
\<close>

theorem freeze_leaves_function_property_unfrozen:
  "(scheduled_at h a = Inr cs \<longrightarrow> c \<in> set cs \<longrightarrow> typeof h (VRef c) = TObject) \<and>
   (typeof h (VRef f) = TFunction \<longrightarrow> \<not> Object_isFrozen h (VRef f) \<longrightarrow> f \<notin> visited \<longrightarrow>
      isFrozenImpl (Suc n) h (VRef f) visited = (Inr False, visited)) \<and>
   fst (freeze call method_graph (VRef 0)) = Inr (VRef 0) \<and>
   Object_isFrozen (snd (freeze call method_graph (VRef 0))) (VRef 0) \<and>
   \<not> Object_isFrozen (snd (freeze call method_graph (VRef 0))) (VRef 1) \<and>
   isFrozen (Suc (Suc d)) (snd (freeze call method_graph (VRef 0))) (VRef 0) = Inr False"
proof -
  have "fst (freeze call method_graph (VRef 0)) = Inr (VRef 0) \<and>
   Object_isFrozen (snd (freeze call method_graph (VRef 0))) (VRef 0) \<and>
   \<not> Object_isFrozen (snd (freeze call method_graph (VRef 0))) (VRef 1) \<and>
   isFrozen (Suc (Suc d)) (snd (freeze call method_graph (VRef 0))) (VRef 0) = Inr False"
    by (simp add: freeze_method_graph isFrozen_def platform_defs example_defs)
  with scheduled_is_object [of h a cs c] isFrozenImpl_unfrozen_function [of h f visited n]
  show ?thesis by blast
qed

theorem freeze_leaves_function_property_unfrozen_witness:
  "scheduled_at [plain_object False [data_prop ''f'' (VRef 1), data_prop ''o'' (VRef 2)],
                 function_object False [], plain_object False []] 0 = Inr [2] \<and>
   typeof [plain_object False [data_prop ''f'' (VRef 1), data_prop ''o'' (VRef 2)],
           function_object False [], plain_object False []] (VRef 2) = TObject \<and>
   isFrozenImpl (Suc 0) method_graph (VRef 1) {} = (Inr False, {}) \<and>
   isFrozen (Suc (Suc 0)) (snd (freeze idle_call method_graph (VRef 0))) (VRef 0) = Inr False"
proof -
  let ?g = "[plain_object False [data_prop ''f'' (VRef 1), data_prop ''o'' (VRef 2)],
             function_object False [], plain_object False []]"
  have s: "scheduled_at ?g 0 = Inr [2]"
    by (simp add: scheduled_at_def scheduled_def platform_defs example_defs)
  have t: "typeof method_graph (VRef 1) = TFunction"
    by (simp add: method_graph_def platform_defs example_defs)
  have u: "\<not> Object_isFrozen method_graph (VRef 1)"
    by (simp add: method_graph_def platform_defs example_defs)
  from freeze_leaves_function_property_unfrozen
         [where h = ?g and a = 0 and cs = "[2]" and c = 2] s
    freeze_leaves_function_property_unfrozen
         [where h = method_graph and f = 1 and visited = "{}" and n = 0 and call = idle_call
            and d = 0] t u
  show ?thesis by simp
qed

section \<open>Symbol keys in the deep-frozen predicate\<close>

text \<open>
  \<open>Object.freeze({ [s]: { x: 1 } })\<close>: a frozen object whose only child, not frozen, sits
  under a symbol key.
\<close>

definition symbol_graph :: heap where
  "symbol_graph =
     [plain_object True [symbol_prop 0 (VRef 1)],
      plain_object False [data_prop ''x'' (VPrim (PNumber 1))]]"

text \<open>
  Claim C4. The claim expects \<open>isFrozen\<close> to answer false on this graph. \<open>isFrozenImpl\<close>
  enumerates \<open>Object.getOwnPropertyNames\<close> only, which lists no symbol key, so the child is
  never looked at and the answer is true, although the child is not frozen.
\<close>

theorem isFrozen_skips_symbol_keys:
  "isShallowFrozen symbol_graph (VRef 0) \<and> \<not> isShallowFrozen symbol_graph (VRef 1) \<and>
   isFrozen (Suc d) symbol_graph (VRef 0) = Inr True"
  by (simp add: symbol_graph_def isFrozen_def isShallowFrozen_def platform_defs example_defs)

text \<open>The sibling traversal \<open>freeze\<close> does follow the symbol key.\<close>

lemma freeze_follows_symbol_keys:
  "freeze call
     [plain_object False [symbol_prop 0 (VRef 1)],
      plain_object False [data_prop ''x'' (VPrim (PNumber 1))]] (VRef 0) =
   (Inr (VRef 0),
     [plain_object True [symbol_prop 0 (VRef 1)],
      plain_object True [data_prop ''x'' (VPrim (PNumber 1))]])"
  by (simp add: freeze_def isFreezable_def scheduled_at_def scheduled_def
      platform_defs example_defs)

section \<open>Assertions\<close>

text \<open>The only exception the deep-frozen predicate raises is the exhausted call stack.\<close>

lemma every_child_error:
  assumes "\<And>v vis e. fst (chk v vis) = Inl e \<Longrightarrow> e = RangeError"
  shows "fst (every_child chk vs vis) = Inl e \<Longrightarrow> e = RangeError"
proof (induction vs arbitrary: vis)
  case Nil
  then show ?case by simp
next
  case (Cons v vs)
  obtain r vis' where r: "chk v vis = (r, vis')" by (cases "chk v vis")
  show ?case
  proof (cases r)
    case (Inl e')
    with r Cons.prems assms [of v vis e'] show ?thesis by simp
  next
    case (Inr b)
    with r Cons.prems Cons.IH [of vis'] show ?thesis by (cases b) simp_all
  qed
qed

lemma every_property_error:
  "fst (every_property chk ps vis) = Inl e \<Longrightarrow> e = RangeError"
proof (induction ps arbitrary: vis)
  case Nil
  then show ?case by simp
next
  case (Cons p ps)
  show ?case
  proof (cases "read_prop p")
    case (Inl e')
    with Cons show ?thesis by simp
  next
    case (Inr v)
    obtain r vis' where r: "chk v vis = (r, vis')" by (cases "chk v vis")
    show ?thesis
    proof (cases r)
      case (Inl e')
      with r Inr Cons.prems Cons.IH [of vis'] show ?thesis by simp
    next
      case (Inr b)
      with r \<open>read_prop p = Inr v\<close> Cons.prems Cons.IH [of vis'] show ?thesis
        by (cases b) simp_all
    qed
  qed
qed

lemma isFrozenImpl_error:
  "fst (isFrozenImpl d h v vis) = Inl e \<Longrightarrow> e = RangeError"
proof (induction d arbitrary: v vis e)
  case 0
  then show ?case by simp
next
  case (Suc d)
  have chk: "\<And>v vis e. fst (isFrozenImpl d h v vis) = Inl e \<Longrightarrow> e = RangeError"
    using Suc.IH by blast
  show ?case
    using Suc.prems every_child_error [of "isFrozenImpl d h", OF chk]
      every_property_error [of "isFrozenImpl d h"]
    by (auto split: if_splits val.splits option.splits kind.splits)
qed

lemma isFrozen_error: "isFrozen d h v = Inl e \<Longrightarrow> e = RangeError"
  unfolding isFrozen_def by (rule isFrozenImpl_error)

text \<open>A reference to a single-level frozen object that is not a function.\<close>

definition frozen_object_at :: "heap \<Rightarrow> val \<Rightarrow> bool" where
  "frozen_object_at h v =
     (case v of
        VRef a \<Rightarrow>
          (case heap_get h a of None \<Rightarrow> False | Some ob \<Rightarrow> kind ob \<noteq> KFunction \<and> frozen ob)
      | _ \<Rightarrow> False)"

text \<open>
  Claim C9, as amended. \<open>assertFrozen(value, name)\<close> raises a \<open>FrozenAssertionError\<close> that
  carries the value and whose message contains the name exactly when \<open>isFrozen(value)\<close> is
  false, and returns normally exactly when \<open>isFrozen(value)\<close> is true.
  \<open>assertMutable(value, name)\<close> raises the same kind of error exactly when the value is a
  single-level frozen object of type object, which a function is not, and returns normally
  otherwise. Neither function writes to the heap: the model of each takes the heap and
  returns none.
\<close>

theorem assertions_raise_exactly_when_violated:
  "((\<exists>m. assertFrozen d h v name = Inl (FrozenAssertionError m v) \<and> sublist name m)
      \<longleftrightarrow> isFrozen d h v = Inr False) \<and>
   (assertFrozen d h v name = Inr () \<longleftrightarrow> isFrozen d h v = Inr True) \<and>
   ((\<exists>m. assertMutable h v name = Inl (FrozenAssertionError m v) \<and> sublist name m)
      \<longleftrightarrow> frozen_object_at h v) \<and>
   (assertMutable h v name = Inr () \<longleftrightarrow> \<not> frozen_object_at h v)"
proof -
  have sub1: "sublist name (''Expected '' @ name @ '' to be deeply frozen, but it is not. '' @
                  ''Use freeze() or frozenCopy() to create immutable data.'')"
    unfolding sublist_def by blast
  have sub2: "sublist name (''Expected '' @ name @ '' to be mutable, but it is frozen. '' @
              ''Create a mutable copy if you need to modify it.'')"
    unfolding sublist_def by blast
  have a1: "(\<exists>m. assertFrozen d h v name = Inl (FrozenAssertionError m v) \<and> sublist name m)
      \<longleftrightarrow> isFrozen d h v = Inr False"
  proof (cases "isFrozen d h v")
    case (Inl e)
    then have "e = RangeError" by (rule isFrozen_error)
    with Inl show ?thesis by (simp add: assertFrozen_def)
  next
    case (Inr b)
    with sub1 show ?thesis by (cases b) (simp_all add: assertFrozen_def)
  qed
  have a2: "assertFrozen d h v name = Inr () \<longleftrightarrow> isFrozen d h v = Inr True"
    by (cases "isFrozen d h v") (auto simp: assertFrozen_def)
  have m0: "frozen_object_at h v \<longleftrightarrow> (v \<noteq> VNull \<and> typeof h v = TObject \<and> Object_isFrozen h v)"
    by (auto simp: frozen_object_at_def typeof_def Object_isFrozen_def
        split: val.splits option.splits prim.splits)
  have m1: "(\<exists>m. assertMutable h v name = Inl (FrozenAssertionError m v) \<and> sublist name m)
      \<longleftrightarrow> frozen_object_at h v"
    using sub2 by (simp add: m0 assertMutable_def)
  have m2: "assertMutable h v name = Inr () \<longleftrightarrow> \<not> frozen_object_at h v"
    by (simp add: m0 assertMutable_def)
  from a1 a2 m1 m2 show ?thesis by blast
qed

theorem assertions_raise_exactly_when_violated_witness:
  "(\<exists>m. assertFrozen (Suc (Suc 0)) [plain_object False [], plain_object True []] (VRef 0) ''config''
          = Inl (FrozenAssertionError m (VRef 0)) \<and> sublist ''config'' m) \<and>
   assertFrozen (Suc (Suc 0)) [plain_object False [], plain_object True []] (VRef 1) ''config''
     = Inr () \<and>
   (\<exists>m. assertMutable [plain_object False [], plain_object True []] (VRef 1) ''config''
          = Inl (FrozenAssertionError m (VRef 1)) \<and> sublist ''config'' m) \<and>
   assertMutable [plain_object False [], plain_object True []] (VRef 0) ''config'' = Inr ()"
  using assertions_raise_exactly_when_violated
      [of "Suc (Suc 0)" "[plain_object False [], plain_object True []]" "VRef 0" "''config''"]
    assertions_raise_exactly_when_violated
      [of "Suc (Suc 0)" "[plain_object False [], plain_object True []]" "VRef 1" "''config''"]
  by (simp add: isFrozen_def frozen_object_at_def platform_defs example_defs)

text \<open>
  The claim as stated fails for \<open>Object.freeze(function () {})\<close>: a single-level frozen
  object that the \<open>typeof value === "object"\<close> guard of \<open>assertMutable\<close> lets pass.
\<close>

definition frozen_function_graph :: heap where
  "frozen_function_graph = [function_object True []]"

theorem assertMutable_accepts_frozen_function:
  "typeof frozen_function_graph (VRef 0) = TFunction \<and>
   Object_isFrozen frozen_function_graph (VRef 0) \<and>
   isShallowFrozen frozen_function_graph (VRef 0) \<and>
   assign_property frozen_function_graph 0 (KStr ''x'') VNull = Inl TypeError \<and>
   assertMutable frozen_function_graph (VRef 0) ''fn'' = Inr ()"
  by (simp add: frozen_function_graph_def assertMutable_def isShallowFrozen_def
      assign_property_def platform_defs example_defs)

section \<open>What the work-stack loop freezes\<close>

lemma heap_get_freeze:
  "heap_get (Object_freeze h c) a =
     (if a = c then map_option (\<lambda>ob. ob\<lparr>frozen := True\<rparr>) (heap_get h a) else heap_get h a)"
  by (simp add: heap_get_def Object_freeze_def)

lemma typeof_freeze [simp]: "typeof (Object_freeze h c) v = typeof h v"
  by (cases v) (auto simp: typeof_def heap_get_freeze split: option.splits)

lemma is_object_child_freeze [simp]: "is_object_child (Object_freeze h c) v = is_object_child h v"
  by (simp add: is_object_child_def)

lemma pushed_freeze [simp]: "pushed (Object_freeze h c) vs = pushed h vs"
  by (induction vs) (auto split: val.splits)

lemma scheduled_freeze [simp]: "scheduled (Object_freeze h c) ob = scheduled h ob"
  by (simp add: scheduled_def cong: kind.case_cong sum.case_cong)

lemma scheduled_frozen_flag [simp]: "scheduled h (ob\<lparr>frozen := b\<rparr>) = scheduled h ob"
  by (simp add: scheduled_def Object_keys_def Object_getOwnPropertyNames_def
      Object_getOwnPropertySymbols_def cong: kind.case_cong sum.case_cong)

lemma scheduled_at_freeze [simp]: "scheduled_at (Object_freeze h c) a = scheduled_at h a"
  by (auto simp: scheduled_at_def heap_get_freeze split: option.splits)

lemma isFrozen_after_freeze:
  "Object_isFrozen (Object_freeze h c) (VRef a) = (a = c \<or> Object_isFrozen h (VRef a))"
  by (auto simp: Object_isFrozen_def heap_get_freeze split: option.splits)

text \<open>Frozen stays frozen.\<close>

lemma freeze_loop_monotone:
  "Object_isFrozen h (VRef a) \<Longrightarrow> Object_isFrozen (snd (freeze_loop h st vis)) (VRef a)"
proof (induction h st vis rule: freeze_loop.induct)
  case (1 h visited)
  then show ?case by simp
next
  case (2 h currentObj stack visited)
  then show ?case
    by (auto simp: isFrozen_after_freeze split: sum.splits)
qed

text \<open>
  \<open>reach h s a\<close>: the loop started at \<open>s\<close> on heap \<open>h\<close> can get to \<open>a\<close>, following the
  children it schedules, through objects that are not frozen in \<open>h\<close>. A frozen object is
  popped and skipped, so no path continues through it.
\<close>

inductive reach :: "heap \<Rightarrow> addr \<Rightarrow> addr \<Rightarrow> bool" for h :: heap and s :: addr where
  reach_self: "reach h s s"
| reach_child:
    "reach h s b \<Longrightarrow> \<not> Object_isFrozen h (VRef b) \<Longrightarrow> scheduled_at h b = Inr cs \<Longrightarrow> c \<in> set cs
     \<Longrightarrow> reach h s c"

code_pred reach .

lemma reach_from_frozen: "reach h s a \<Longrightarrow> Object_isFrozen h (VRef s) \<Longrightarrow> a = s"
  by (induction rule: reach.induct) auto

lemma reach_split:
  assumes "reach h s a" and "scheduled_at h cur = Inr cs"
  shows "reach (Object_freeze h cur) s a \<or> (\<exists>c\<in>set cs. reach (Object_freeze h cur) c a)"
  using assms(1)
proof (induction rule: reach.induct)
  case reach_self
  show ?case by (simp add: reach.reach_self)
next
  case (reach_child b cs' c)
  show ?case
  proof (cases "b = cur")
    case True
    with reach_child.hyps assms(2) have "c \<in> set cs" by simp
    then show ?thesis using reach.reach_self by blast
  next
    case False
    with reach_child.hyps have nf: "\<not> Object_isFrozen (Object_freeze h cur) (VRef b)"
      by (simp add: isFrozen_after_freeze)
    from reach_child.hyps have sc: "scheduled_at (Object_freeze h cur) b = Inr cs'" by simp
    from reach_child.IH show ?thesis
    proof
      assume "reach (Object_freeze h cur) s b"
      from reach.reach_child [OF this nf sc \<open>c \<in> set cs'\<close>] show ?thesis by blast
    next
      assume "\<exists>c0\<in>set cs. reach (Object_freeze h cur) c0 b"
      then obtain c0 where "c0 \<in> set cs" "reach (Object_freeze h cur) c0 b" by blast
      with reach.reach_child [OF this(2) nf sc \<open>c \<in> set cs'\<close>] show ?thesis by blast
    qed
  qed
qed

lemma freeze_loop_reach:
  "freeze_loop h st vis = (None, h') \<Longrightarrow> \<forall>v\<in>vis. Object_isFrozen h (VRef v) \<Longrightarrow>
   s \<in> set st \<Longrightarrow> reach h s a \<Longrightarrow> Object_isFrozen h' (VRef a)"
proof (induction h st vis arbitrary: s a rule: freeze_loop.induct)
  case (1 h visited)
  then show ?case by simp
next
  case (2 h cur stack visited)
  show ?case
  proof (cases "cur \<in> visited \<or> Object_isFrozen h (VRef cur)")
    case True
    with "2.prems"(2) have fr: "Object_isFrozen h (VRef cur)" by blast
    from True "2.prems"(1) have run: "freeze_loop h stack visited = (None, h')" by simp
    show ?thesis
    proof (cases "s = cur")
      case True
      with fr "2.prems"(4) have "a = cur" using reach_from_frozen by blast
      with fr freeze_loop_monotone [of h cur stack visited] run show ?thesis by simp
    next
      case False
      with "2.prems"(3) have "s \<in> set stack" by simp
      from "2.IH"(1) [OF True run "2.prems"(2) this "2.prems"(4)] show ?thesis .
    qed
  next
    case False
    with "2.prems"(1) obtain cs where cs: "scheduled_at h cur = Inr cs"
      and run: "freeze_loop (Object_freeze h cur) (rev cs @ stack) (insert cur visited) = (None, h')"
      by (auto split: sum.splits)
    from "2.prems"(2) have inv: "\<forall>v\<in>insert cur visited. Object_isFrozen (Object_freeze h cur) (VRef v)"
      by (simp add: isFrozen_after_freeze)
    note IH = "2.IH"(2) [OF False cs run inv]
    from reach_split [OF "2.prems"(4) cs]
    show ?thesis
    proof
      assume r: "reach (Object_freeze h cur) s a"
      show ?thesis
      proof (cases "s = cur")
        case True
        have "Object_isFrozen (Object_freeze h cur) (VRef cur)" by (simp add: isFrozen_after_freeze)
        with r True have "a = cur" using reach_from_frozen by blast
        with freeze_loop_monotone [of "Object_freeze h cur" cur "rev cs @ stack" "insert cur visited"] run
        show ?thesis by (simp add: isFrozen_after_freeze)
      next
        case False
        with "2.prems"(3) have "s \<in> set (rev cs @ stack)" by simp
        from IH [OF this r] show ?thesis .
      qed
    next
      assume "\<exists>c\<in>set cs. reach (Object_freeze h cur) c a"
      then obtain c where "c \<in> set cs" and r: "reach (Object_freeze h cur) c a" by blast
      then have "c \<in> set (rev cs @ stack)" by simp
      from IH [OF this r] show ?thesis .
    qed
  qed
qed

text \<open>A function is never on the stack, so the loop leaves every function as it is.\<close>

lemma freeze_loop_functions:
  "\<forall>s\<in>set st. typeof h (VRef s) = TObject \<Longrightarrow> heap_get h a = Some ob \<Longrightarrow> kind ob = KFunction \<Longrightarrow>
   heap_get (snd (freeze_loop h st vis)) a = Some ob"
proof (induction h st vis rule: freeze_loop.induct)
  case (1 h visited)
  then show ?case by simp
next
  case (2 h cur stack visited)
  show ?case
  proof (cases "cur \<in> visited \<or> Object_isFrozen h (VRef cur)")
    case True
    with 2 show ?thesis by simp
  next
    case False
    show ?thesis
    proof (cases "scheduled_at h cur")
      case (Inl e)
      with False "2.prems" show ?thesis by simp
    next
      case (Inr cs)
      from "2.prems" have "a \<noteq> cur" by (auto simp: typeof_def)
      with "2.prems" have g: "heap_get (Object_freeze h cur) a = Some ob"
        by (simp add: heap_get_freeze)
      from Inr "2.prems"(1) have st: "\<forall>s\<in>set (rev cs @ stack). typeof (Object_freeze h cur) (VRef s) = TObject"
        by (auto dest: scheduled_is_object)
      from "2.IH"(2) [OF False Inr st g "2.prems"(3)] False Inr show ?thesis by simp
    qed
  qed
qed

text \<open>The loop changes frozen flags and nothing else.\<close>

definition refreezing :: "heap \<Rightarrow> heap \<Rightarrow> bool" where
  "refreezing h h' =
     (length h' = length h \<and> (\<forall>a<length h. \<exists>b. h' ! a = (h ! a)\<lparr>frozen := b\<rparr>))"

lemma refreezing_refl: "refreezing h h"
  unfolding refreezing_def
proof (intro conjI allI impI)
  fix a assume "a < length h"
  have "h ! a = (h ! a)\<lparr>frozen := frozen (h ! a)\<rparr>" by simp
  then show "\<exists>b. h ! a = (h ! a)\<lparr>frozen := b\<rparr>" by blast
qed simp

lemma refreezing_trans: "refreezing h h1 \<Longrightarrow> refreezing h1 h2 \<Longrightarrow> refreezing h h2"
  unfolding refreezing_def
proof (intro conjI allI impI)
  assume a: "length h1 = length h \<and> (\<forall>a<length h. \<exists>b. h1 ! a = (h ! a)\<lparr>frozen := b\<rparr>)"
    and b: "length h2 = length h1 \<and> (\<forall>a<length h1. \<exists>b. h2 ! a = (h1 ! a)\<lparr>frozen := b\<rparr>)"
  then show "length h2 = length h" by simp
  fix x assume x: "x < length h"
  with a obtain b1 where b1: "h1 ! x = (h ! x)\<lparr>frozen := b1\<rparr>" by blast
  from x a b obtain b2 where b2: "h2 ! x = (h1 ! x)\<lparr>frozen := b2\<rparr>" by auto
  from b1 b2 have "h2 ! x = (h ! x)\<lparr>frozen := b2\<rparr>" by simp
  then show "\<exists>b. h2 ! x = (h ! x)\<lparr>frozen := b\<rparr>" by blast
qed

lemma refreezing_freeze: "refreezing h (Object_freeze h c)"
  unfolding refreezing_def Object_freeze_def
proof (intro conjI allI impI)
  fix a assume "a < length h"
  show "\<exists>b. h[c := (h ! c)\<lparr>frozen := True\<rparr>] ! a = (h ! a)\<lparr>frozen := b\<rparr>"
  proof (cases "a = c")
    case True
    with \<open>a < length h\<close> show ?thesis by auto
  next
    case False
    have "h ! a = (h ! a)\<lparr>frozen := frozen (h ! a)\<rparr>" by simp
    with False show ?thesis by (metis nth_list_update_neq)
  qed
qed simp

lemma freeze_loop_refreezing: "refreezing h (snd (freeze_loop h st vis))"
proof (induction h st vis rule: freeze_loop.induct)
  case (1 h visited)
  show ?case by (simp add: refreezing_refl)
next
  case (2 h cur stack visited)
  show ?case
  proof (cases "cur \<in> visited \<or> Object_isFrozen h (VRef cur)")
    case True
    with "2.IH"(1) show ?thesis by simp
  next
    case False
    show ?thesis
    proof (cases "scheduled_at h cur")
      case (Inl e)
      with False show ?thesis by (simp add: refreezing_refl)
    next
      case (Inr cs)
      from "2.IH"(2) [OF False Inr] refreezing_freeze [of h cur]
      have "refreezing h (snd (freeze_loop (Object_freeze h cur) (rev cs @ stack) (insert cur visited)))"
        by (rule refreezing_trans [rotated])
      with False Inr show ?thesis by simp
    qed
  qed
qed

lemma refreezing_heap_get:
  "refreezing h h' \<Longrightarrow> heap_get h a = Some ob \<Longrightarrow> \<exists>b. heap_get h' a = Some (ob\<lparr>frozen := b\<rparr>)"
  by (auto simp: refreezing_def heap_get_def split: if_splits)

lemma refreezing_heap_get_None:
  "refreezing h h' \<Longrightarrow> heap_get h a = None \<Longrightarrow> heap_get h' a = None"
  by (auto simp: refreezing_def heap_get_def split: if_splits)

lemma refreezing_typeof: "refreezing h h' \<Longrightarrow> typeof h' v = typeof h v"
proof (cases v)
  case (VRef a)
  assume r: "refreezing h h'"
  show ?thesis
  proof (cases "heap_get h a")
    case None
    with refreezing_heap_get_None [OF r None] VRef show ?thesis by (simp add: typeof_def)
  next
    case (Some ob)
    with refreezing_heap_get [OF r Some] VRef show ?thesis by (auto simp: typeof_def)
  qed
qed (simp_all add: typeof_def)

lemma isShallowFrozen_refreeze:
  "isShallowFrozen h v \<Longrightarrow> freeze call h v = (Inr v, h)"
  by (auto simp: isShallowFrozen_def freeze_def)

lemma freeze_native_result:
  assumes "freeze call h v = (Inr r, h1)" and "isFreezable h v \<noteq> Inr True"
  shows "r = v \<and> isShallowFrozen h1 v \<and> refreezing h h1"
proof (cases "v = VNull \<or> v = VUndefined \<or> (typeof h v \<noteq> TObject \<and> typeof h v \<noteq> TFunction)
    \<or> Object_isFrozen h v")
  case True
  with assms(1) have "r = v" "h1 = h" by (auto simp: freeze_def split: if_splits)
  with True show ?thesis by (auto simp: isShallowFrozen_def refreezing_refl)
next
  case False
  then obtain a where a: "v = VRef a"
    by (cases v) (auto simp: typeof_def Object_isFrozen_def split: prim.splits)
  from assms(1) False obtain b where b: "isFreezable h v = Inr b"
    by (cases "isFreezable h v") (auto simp: freeze_def)
  with assms(2) have nb: "isFreezable h v = Inr False" by (cases b) simp_all
  with False a assms(1) have run: "freeze_loop h [a] {} = (None, h1)" and r: "r = v"
    by (auto simp: freeze_def split: prod.splits option.splits)
  from freeze_loop_reach [OF run _ _ reach_self, of a] have "Object_isFrozen h1 (VRef a)" by simp
  moreover from freeze_loop_refreezing [of h "[a]" "{}"] run have "refreezing h h1" by simp
  ultimately show ?thesis using r a by (simp add: isShallowFrozen_def)
qed

lemma frozen_rejects_writes:
  assumes "Object_isFrozen h (VRef a)"
  shows "assign_property h a k x = Inl TypeError"
    and "find_property k (props (h ! a)) \<noteq> None \<Longrightarrow> delete_property h a k = Inl TypeError"
  using assms
  by (auto simp: assign_property_def delete_property_def Object_isFrozen_def heap_get_def
      split: option.splits if_splits)

lemma freeze_snd_loop:
  assumes "v = VRef a" "\<not> Object_isFrozen h v" "isFreezable h v = Inr False"
  shows "snd (freeze call h v) = snd (freeze_loop h [a] {})"
proof -
  from assms(1,2) have "typeof h v = TObject \<or> typeof h v = TFunction"
    by (auto simp: typeof_def Object_isFrozen_def split: option.splits)
  with assms show ?thesis
    by (auto simp: freeze_def split: prod.splits option.splits)
qed

section \<open>The children of a container\<close>

text \<open>
  The node classifier of the specification: the values a container yields as its children.
  An array yields its elements, a Map every key and every value, a Set every member, a Date
  or RegExp nothing, a plain container every own enumerable string-key value and every own
  symbol-key value, a container with a custom prototype every own property value, enumerable
  or not, that can be read; a callable is a leaf.
\<close>

definition yields :: "obj \<Rightarrow> val \<Rightarrow> bool" where
  "yields ob v =
     (case kind ob of
        KArray items \<Rightarrow> v \<in> set items
      | KMap es \<Rightarrow> (\<exists>e\<in>set es. v = fst e \<or> v = snd e)
      | KSet items \<Rightarrow> v \<in> set items
      | KDate t \<Rightarrow> False
      | KRegExp src fl \<Rightarrow> False
      | KPlain \<Rightarrow>
          (\<exists>p\<in>set (props ob).
             (is_string_key (pname p) \<and> enumerable p \<or> \<not> is_string_key (pname p)) \<and>
             read_prop p = Inr v)
      | KNullProto \<Rightarrow>
          (\<exists>p\<in>set (props ob).
             (is_string_key (pname p) \<and> enumerable p \<or> \<not> is_string_key (pname p)) \<and>
             read_prop p = Inr v)
      | KCustom q \<Rightarrow> (\<exists>p\<in>set (props ob). read_prop p = Inr v)
      | KFunction \<Rightarrow> False)"

text \<open>
  \<open>child_of h b c\<close>: the container at \<open>b\<close> yields a reference to the object at \<open>c\<close>, which is
  not a callable.
\<close>

definition child_of :: "heap \<Rightarrow> addr \<Rightarrow> addr \<Rightarrow> bool" where
  "child_of h b c = (b < length h \<and> yields (h ! b) (VRef c) \<and> typeof h (VRef c) = TObject)"

text \<open>
  \<open>unfrozen_path h s a\<close>: a path of children leads from \<open>s\<close> to \<open>a\<close>, and every object on
  it before \<open>a\<close> is not single-level frozen in \<open>h\<close>.
\<close>

inductive unfrozen_path :: "heap \<Rightarrow> addr \<Rightarrow> addr \<Rightarrow> bool" for h :: heap and s :: addr where
  path_start: "unfrozen_path h s s"
| path_child:
    "unfrozen_path h s b \<Longrightarrow> \<not> Object_isFrozen h (VRef b) \<Longrightarrow> child_of h b c \<Longrightarrow> unfrozen_path h s c"

code_pred unfrozen_path .

lemma set_pushed: "set (pushed h vs) = {c. VRef c \<in> set vs \<and> typeof h (VRef c) = TObject}"
  by (induction vs) (auto simp: is_object_child_def split: val.splits)

lemma read_all_set:
  "read_all ps = Inr vs \<Longrightarrow> set vs = {v. \<exists>p\<in>set ps. read_prop p = Inr v}"
proof (induction ps arbitrary: vs)
  case Nil
  then show ?case by simp
next
  case (Cons p ps)
  then show ?case by (auto split: sum.splits)
qed

lemma set_read_guarded: "set (read_guarded ps) = {v. \<exists>p\<in>set ps. read_prop p = Inr v}"
  by (induction ps) (auto split: sum.splits)

lemma mem_flatten_entries:
  "v \<in> set (flatten_entries es) \<longleftrightarrow> (\<exists>e\<in>set es. v = fst e \<or> v = snd e)"
  by (induction es rule: flatten_entries.induct) auto

lemma scheduled_yields:
  assumes "scheduled h ob = Inr cs" and "kind ob \<noteq> KFunction"
  shows "set cs = {c. yields ob (VRef c) \<and> typeof h (VRef c) = TObject}"
proof (cases "kind ob")
  case (KArray items)
  with assms show ?thesis by (auto simp: scheduled_def yields_def set_pushed)
next
  case (KMap es)
  with assms have "cs = pushed h (flatten_entries es)" by (simp add: scheduled_def)
  with KMap show ?thesis by (simp add: yields_def set_pushed mem_flatten_entries)
next
  case (KSet items)
  with assms show ?thesis by (auto simp: scheduled_def yields_def set_pushed)
next
  case (KDate t)
  with assms show ?thesis by (auto simp: scheduled_def yields_def)
next
  case (KRegExp src fl)
  with assms show ?thesis by (auto simp: scheduled_def yields_def)
next
  case KPlain
  with assms obtain vs where vs: "read_all (Object_keys ob @ Object_getOwnPropertySymbols ob) = Inr vs"
    and cs: "cs = pushed h vs"
    by (auto simp: scheduled_def split: sum.splits)
  from read_all_set [OF vs] cs KPlain show ?thesis
    by (auto simp: yields_def set_pushed Object_keys_def Object_getOwnPropertySymbols_def)
next
  case KNullProto
  with assms obtain vs where vs: "read_all (Object_keys ob @ Object_getOwnPropertySymbols ob) = Inr vs"
    and cs: "cs = pushed h vs"
    by (auto simp: scheduled_def split: sum.splits)
  from read_all_set [OF vs] cs KNullProto show ?thesis
    by (auto simp: yields_def set_pushed Object_keys_def Object_getOwnPropertySymbols_def)
next
  case (KCustom q)
  with assms show ?thesis
    by (auto simp: scheduled_def yields_def set_pushed set_read_guarded
        Object_getOwnPropertyNames_def Object_getOwnPropertySymbols_def)
next
  case KFunction
  with assms show ?thesis by simp
qed

lemma scheduled_at_children:
  assumes "scheduled_at h b = Inr cs" and "typeof h (VRef b) = TObject"
  shows "set cs = {c. child_of h b c}"
proof -
  from assms(2) have b: "b < length h" "kind (h ! b) \<noteq> KFunction"
    by (auto simp: typeof_def heap_get_def split: if_splits)
  with assms(1) have "scheduled h (h ! b) = Inr cs" by (simp add: scheduled_at_def heap_get_def)
  from scheduled_yields [OF this b(2)] b(1) show ?thesis by (auto simp: child_of_def)
qed

lemma unfrozen_path_object:
  "unfrozen_path h s a \<Longrightarrow> typeof h (VRef s) = TObject \<Longrightarrow> typeof h (VRef a) = TObject"
  by (induction rule: unfrozen_path.induct) (auto simp: child_of_def)

lemma reach_unfrozen_path:
  assumes "typeof h (VRef s) = TObject"
  shows "reach h s a \<Longrightarrow> unfrozen_path h s a"
proof (induction rule: reach.induct)
  case reach_self
  show ?case by (rule path_start)
next
  case (reach_child b cs c)
  from unfrozen_path_object [OF reach_child.IH assms] have "typeof h (VRef b) = TObject" .
  from scheduled_at_children [OF reach_child.hyps(3) this] reach_child.hyps(4)
  have "child_of h b c" by blast
  from path_child [OF reach_child.IH reach_child.hyps(2) this] show ?case .
qed

text \<open>A loop that ends without exception could enumerate every object it froze.\<close>

lemma freeze_loop_scheduled:
  "freeze_loop h st vis = (None, h') \<Longrightarrow> \<not> Object_isFrozen h (VRef b) \<Longrightarrow>
   Object_isFrozen h' (VRef b) \<Longrightarrow> \<exists>cs. scheduled_at h b = Inr cs"
proof (induction h st vis rule: freeze_loop.induct)
  case (1 h visited)
  then show ?case by simp
next
  case (2 h cur stack visited)
  show ?case
  proof (cases "cur \<in> visited \<or> Object_isFrozen h (VRef cur)")
    case True
    with "2.prems" "2.IH"(1) show ?thesis by simp
  next
    case False
    with "2.prems"(1) obtain cs where cs: "scheduled_at h cur = Inr cs"
      and run: "freeze_loop (Object_freeze h cur) (rev cs @ stack) (insert cur visited) = (None, h')"
      by (auto split: sum.splits)
    show ?thesis
    proof (cases "b = cur")
      case True
      with cs show ?thesis by blast
    next
      case nb: False
      with "2.prems"(2) have "\<not> Object_isFrozen (Object_freeze h cur) (VRef b)"
        by (simp add: isFrozen_after_freeze)
      from "2.IH"(2) [OF False cs run this "2.prems"(3)] show ?thesis by simp
    qed
  qed
qed

lemma unfrozen_path_reach:
  assumes run: "freeze_loop h [s] {} = (None, h')" and ty: "typeof h (VRef s) = TObject"
  shows "unfrozen_path h s a \<Longrightarrow> reach h s a"
proof (induction rule: unfrozen_path.induct)
  case path_start
  show ?case by (rule reach_self)
next
  case (path_child b c)
  from freeze_loop_reach [OF run _ _ path_child.IH] have "Object_isFrozen h' (VRef b)" by simp
  from freeze_loop_scheduled [OF run path_child.hyps(2) this] obtain cs where
    cs: "scheduled_at h b = Inr cs" by blast
  from unfrozen_path_object [OF path_child.hyps(1) ty] have "typeof h (VRef b) = TObject" .
  from scheduled_at_children [OF cs this] path_child.hyps(3) have "c \<in> set cs" by simp
  from reach_child [OF path_child.IH path_child.hyps(2) cs this] show ?case .
qed

text \<open>The loop changes no object but those it reaches from its stack.\<close>

lemma reach_trans: "reach h b c \<Longrightarrow> reach h s b \<Longrightarrow> reach h s c"
proof (induction rule: reach.induct)
  case reach_self
  then show ?case .
next
  case (reach_child b' cs c)
  from reach.reach_child [OF reach_child.IH [OF reach_child.prems] reach_child.hyps(2,3,4)]
  show ?case .
qed

lemma reach_before_freeze: "reach (Object_freeze h cur) s a \<Longrightarrow> reach h s a"
proof (induction rule: reach.induct)
  case reach_self
  show ?case by (rule reach.reach_self)
next
  case (reach_child b cs c)
  from reach_child.hyps(2) have nf: "\<not> Object_isFrozen h (VRef b)"
    by (simp add: isFrozen_after_freeze)
  from reach_child.hyps(3) have sc: "scheduled_at h b = Inr cs" by simp
  from reach.reach_child [OF reach_child.IH nf sc reach_child.hyps(4)] show ?case .
qed

lemma freeze_loop_touches:
  "snd (freeze_loop h st vis) ! b \<noteq> h ! b \<Longrightarrow> \<exists>s\<in>set st. reach h s b"
proof (induction h st vis rule: freeze_loop.induct)
  case (1 h visited)
  then show ?case by simp
next
  case (2 h cur stack visited)
  show ?case
  proof (cases "cur \<in> visited \<or> Object_isFrozen h (VRef cur)")
    case True
    with "2.prems" "2.IH"(1) show ?thesis by auto
  next
    case False
    then have nf: "\<not> Object_isFrozen h (VRef cur)" by simp
    show ?thesis
    proof (cases "scheduled_at h cur")
      case (Inl e)
      with False "2.prems" show ?thesis by simp
    next
      case (Inr cs)
      let ?h1 = "Object_freeze h cur"
      from False Inr "2.prems"
      have ne: "snd (freeze_loop ?h1 (rev cs @ stack) (insert cur visited)) ! b \<noteq> h ! b" by simp
      show ?thesis
      proof (cases "?h1 ! b = h ! b")
        case True
        with ne have "snd (freeze_loop ?h1 (rev cs @ stack) (insert cur visited)) ! b \<noteq> ?h1 ! b"
          by simp
        from "2.IH"(2) [OF False Inr this] obtain s where
          s: "s \<in> set (rev cs @ stack)" "reach ?h1 s b" by blast
        from s(2) have r: "reach h s b" by (rule reach_before_freeze)
        show ?thesis
        proof (cases "s \<in> set cs")
          case True
          from reach_child [OF reach_self nf Inr True] have "reach h cur s" .
          from reach_trans [OF r this] show ?thesis by auto
        next
          case False
          with s(1) r show ?thesis by auto
        qed
      next
        case False
        then have "b = cur" by (cases "b = cur") (simp_all add: Object_freeze_def)
        then show ?thesis using reach_self by auto
      qed
    qed
  qed
qed

section \<open>The custom freeze capability\<close>

text \<open>
  \<open>member h a k p\<close>: the object at \<open>a\<close> has the member \<open>k\<close>, own or inherited through its
  prototype chain, and \<open>p\<close> is the property that provides it. \<open>declares_freeze h a f\<close>: the
  object at \<open>a\<close> declares the custom freeze capability, a member \<open>freeze\<close> whose value is the
  callable \<open>f\<close>.
\<close>

inductive member :: "heap \<Rightarrow> pkey \<Rightarrow> addr \<Rightarrow> property \<Rightarrow> bool" for h :: heap and k :: pkey where
  member_own: "a < length h \<Longrightarrow> find_property k (props (h ! a)) = Some p \<Longrightarrow> member h k a p"
| member_inherited:
    "a < length h \<Longrightarrow> find_property k (props (h ! a)) = None \<Longrightarrow> kind (h ! a) = KCustom q \<Longrightarrow>
     member h k q p \<Longrightarrow> member h k a p"

code_pred member .

inductive declares_freeze :: "heap \<Rightarrow> addr \<Rightarrow> addr \<Rightarrow> bool" for h :: heap where
  declares_freezeI:
    "member h (KStr ''freeze'') a p \<Longrightarrow> read_prop p = Inr (VRef f) \<Longrightarrow>
     typeof h (VRef f) = TFunction \<Longrightarrow> declares_freeze h a f"

code_pred declares_freeze .

lemma lookup_chain_member: "lookup_chain n h a k = Some p \<Longrightarrow> member h k a p"
proof (induction n arbitrary: a)
  case 0
  then show ?case by simp
next
  case (Suc n)
  show ?case
  proof (cases "find_property k (props (h ! a))")
    case None
    with Suc.prems obtain q where q: "a < length h" "kind (h ! a) = KCustom q"
      "lookup_chain n h q k = Some p"
      by (auto simp: heap_get_def split: if_splits kind.splits)
    from member_inherited [OF q(1) None q(2) Suc.IH [OF q(3)]] show ?thesis .
  next
    case (Some p')
    with Suc.prems have "a < length h" "p' = p" by (auto simp: heap_get_def split: if_splits)
    with Some show ?thesis by (simp add: member_own)
  qed
qed

text \<open>The objects a member lookup walks through, starting at the head.\<close>

fun proto_path :: "heap \<Rightarrow> pkey \<Rightarrow> addr list \<Rightarrow> property \<Rightarrow> bool" where
  "proto_path h k [] p = False"
| "proto_path h k [a] p = (a < length h \<and> find_property k (props (h ! a)) = Some p)"
| "proto_path h k (a # b # as) p =
     (a < length h \<and> find_property k (props (h ! a)) = None \<and> kind (h ! a) = KCustom b \<and>
      proto_path h k (b # as) p)"

lemma proto_path_bound: "proto_path h k as p \<Longrightarrow> set as \<subseteq> {..<length h}"
  by (induction h k as p rule: proto_path.induct) auto

lemma proto_path_drop: "proto_path h k as p \<Longrightarrow> i < length as \<Longrightarrow> proto_path h k (drop i as) p"
proof (induction h k as p arbitrary: i rule: proto_path.induct)
  case (1 h k p)
  then show ?case by simp
next
  case (2 h k a p)
  then show ?case by simp
next
  case (3 h k a b as p)
  show ?case
  proof (cases i)
    case 0
    with "3.prems" show ?thesis by simp
  next
    case (Suc j)
    with "3.prems" "3.IH" [of j] show ?thesis by simp
  qed
qed

lemma proto_path_lookup:
  "proto_path h k as p \<Longrightarrow> length as \<le> n \<Longrightarrow> lookup_chain n h (hd as) k = Some p"
proof (induction h k as p arbitrary: n rule: proto_path.induct)
  case (1 h k p)
  then show ?case by simp
next
  case (2 h k a p)
  then obtain m where "n = Suc m" by (cases n) auto
  with 2 show ?case by (simp add: heap_get_def)
next
  case (3 h k a b as p)
  then obtain m where m: "n = Suc m" by (cases n) auto
  with "3.prems" have "length (b # as) \<le> m" by simp
  with "3.IH" [of m] "3.prems"(1) have "lookup_chain m h b k = Some p" by simp
  with m "3.prems"(1) show ?case by (simp add: heap_get_def)
qed

lemma member_proto_path:
  "member h k a p \<Longrightarrow> \<exists>as. distinct as \<and> proto_path h k as p \<and> as \<noteq> [] \<and> hd as = a"
proof (induction rule: member.induct)
  case (member_own a p)
  then have "distinct [a] \<and> proto_path h k [a] p \<and> [a] \<noteq> [] \<and> hd [a] = a" by simp
  then show ?case by blast
next
  case (member_inherited a q p)
  then obtain as where as: "distinct as" "proto_path h k as p" "as \<noteq> []" "hd as = q" by blast
  show ?case
  proof (cases "a \<in> set as")
    case True
    then obtain i where i: "i < length as" "as ! i = a" by (auto simp: in_set_conv_nth)
    from proto_path_drop [OF as(2) i(1)] have "proto_path h k (drop i as) p" .
    moreover from as(1) have "distinct (drop i as)" by simp
    moreover from i have "drop i as \<noteq> []" "hd (drop i as) = a" by (simp_all add: hd_drop_conv_nth)
    ultimately show ?thesis by blast
  next
    case False
    from as(3,4) obtain as' where as': "as = q # as'" by (cases as) auto
    with as(2) member_inherited.hyps have "proto_path h k (a # as) p" by simp
    moreover from False as(1) have "distinct (a # as)" by simp
    ultimately show ?thesis by (intro exI [of _ "a # as"]) simp
  qed
qed

lemma member_lookup_chain:
  assumes "member h k a p"
  shows "lookup_chain (length h) h a k = Some p"
proof -
  from member_proto_path [OF assms] obtain as where
    as: "distinct as" "proto_path h k as p" "as \<noteq> []" "hd as = a" by blast
  from proto_path_bound [OF as(2)] have "card (set as) \<le> card {..<length h}"
    by (intro card_mono) auto
  with as(1) have "length as \<le> length h" by (simp add: distinct_card)
  from proto_path_lookup [OF as(2) this] as(4) show ?thesis by simp
qed

lemma member_iff: "member h k a p \<longleftrightarrow> lookup_chain (length h) h a k = Some p"
  using member_lookup_chain lookup_chain_member by blast

lemma isFreezable_declares:
  assumes "typeof h (VRef a) = TObject"
  shows "isFreezable h (VRef a) = Inr True \<longleftrightarrow> (\<exists>f. declares_freeze h a f)"
proof
  assume fz: "isFreezable h (VRef a) = Inr True"
  then obtain p where p: "lookup_chain (length h) h a (KStr ''freeze'') = Some p"
    by (auto simp: isFreezable_def has_member_def split: if_splits)
  with fz obtain m where m: "read_prop p = Inr m" "typeof h m = TFunction"
    by (auto simp: isFreezable_def get_member_def split: if_splits sum.splits)
  from m(2) obtain f where "m = VRef f" by (cases m) (auto simp: typeof_def split: prim.splits)
  with m lookup_chain_member [OF p] show "\<exists>f. declares_freeze h a f"
    by (auto intro: declares_freezeI)
next
  assume "\<exists>f. declares_freeze h a f"
  then obtain f p where "member h (KStr ''freeze'') a p" "read_prop p = Inr (VRef f)"
    "typeof h (VRef f) = TFunction"
    by (auto elim: declares_freeze.cases)
  with member_lookup_chain [OF this(1)] assms show "isFreezable h (VRef a) = Inr True"
    by (simp add: isFreezable_def has_member_def get_member_def)
qed

lemma freeze_delegated:
  assumes "declares_freeze h a f" and "typeof h (VRef a) = TObject"
    and "\<not> Object_isFrozen h (VRef a)"
  shows "freeze call h (VRef a) = call f a h"
proof -
  from assms(1) obtain p where p: "member h (KStr ''freeze'') a p" "read_prop p = Inr (VRef f)"
    "typeof h (VRef f) = TFunction"
    by (auto elim: declares_freeze.cases)
  from member_lookup_chain [OF p(1)] p(2)
  have gm: "get_member h a (KStr ''freeze'') = Inr (VRef f)" by (simp add: get_member_def)
  from assms(1,2) have "isFreezable h (VRef a) = Inr True"
    using isFreezable_declares by blast
  with assms(2,3) gm p(3) show ?thesis by (simp add: freeze_def invoke_freeze_def)
qed

text \<open>What a call of \<open>freeze\<close> that runs the engine's own traversal does to the heap.\<close>

lemma freeze_traversal:
  assumes "freeze call h (VRef root) = (Inr r, h')"
    and "typeof h (VRef root) = TObject"
    and "\<not> Object_isFrozen h (VRef root)"
    and "\<forall>f. \<not> declares_freeze h root f"
  shows "r = VRef root" and "refreezing h h'"
    and "freeze call' h (VRef root) = (Inr r, h')"
    and "unfrozen_path h root a \<Longrightarrow> Object_isFrozen h' (VRef a)"
    and "\<not> unfrozen_path h root a \<Longrightarrow> h' ! a = h ! a"
proof -
  from assms(2,4) have nd: "isFreezable h (VRef root) \<noteq> Inr True"
    using isFreezable_declares by blast
  from assms(1,2,3) obtain b where "isFreezable h (VRef root) = Inr b"
    by (cases "isFreezable h (VRef root)") (auto simp: freeze_def split: if_splits)
  with nd have nb: "isFreezable h (VRef root) = Inr False" by (cases b) simp_all
  from assms(1,2,3) nb have run: "freeze_loop h [root] {} = (None, h')" and r: "r = VRef root"
    by (auto simp: freeze_def split: prod.splits option.splits)
  from r show "r = VRef root" .
  from freeze_loop_refreezing [of h "[root]" "{}"] run show "refreezing h h'" by simp
  from assms(2,3) nb run r show "freeze call' h (VRef root) = (Inr r, h')"
    by (simp add: freeze_def)
  {
    assume "unfrozen_path h root a"
    from unfrozen_path_reach [OF run assms(2) this] have "reach h root a" .
    from freeze_loop_reach [OF run _ _ this] show "Object_isFrozen h' (VRef a)" by simp
  }
  {
    assume np: "\<not> unfrozen_path h root a"
    show "h' ! a = h ! a"
    proof (rule ccontr)
      assume "h' ! a \<noteq> h ! a"
      with run have "snd (freeze_loop h [root] {}) ! a \<noteq> h ! a" by simp
      from freeze_loop_touches [OF this] have "reach h root a" by simp
      from reach_unfrozen_path [OF assms(2) this] np show False by simp
    qed
  }
qed

lemmas child_defs = child_of_def yields_def

section \<open>Claim C1: what freeze leaves frozen\<close>

text \<open>
  Claim C1, as amended. When \<open>freeze\<close> is called on a root of type object that is not yet
  single-level frozen and does not declare a custom \<open>freeze()\<close>, and returns, it returns the
  root, and every object to which a path of children leads from the root (array elements, Map
  keys and values, Set members, own enumerable string-key and own symbol-key values of a
  plain container, own readable property values of a container with a custom prototype;
  callables excepted), every object on the path before the last not single-level frozen
  before the call, is single-level frozen: it rejects reassignment, addition and deletion
  of a property. Cycles are covered: a path may visit an object twice. The call changes
  nothing but frozen flags, and an object to which no such path leads, as one that is
  reachable only through an object frozen before the call, is exactly as it was.
\<close>

theorem freeze_reaches_every_unfrozen_path:
  assumes "freeze call h (VRef root) = (Inr r, h')"
    and "typeof h (VRef root) = TObject"
    and "\<not> Object_isFrozen h (VRef root)"
    and "\<forall>f. \<not> declares_freeze h root f"
  shows "r = VRef root \<and> refreezing h h' \<and>
         (\<forall>a. unfrozen_path h root a \<longrightarrow>
            Object_isFrozen h' (VRef a) \<and>
            (\<forall>k x. assign_property h' a k x = Inl TypeError \<and>
               (find_property k (props (h' ! a)) \<noteq> None \<longrightarrow>
                  delete_property h' a k = Inl TypeError))) \<and>
         (\<forall>a. \<not> unfrozen_path h root a \<longrightarrow> h' ! a = h ! a)"
proof (intro conjI allI impI)
  note t = freeze_traversal [OF assms]
  from t(1) show "r = VRef root" .
  from t(2) show "refreezing h h'" .
  fix a
  {
    assume "unfrozen_path h root a"
    from t(4) [OF this] show fr: "Object_isFrozen h' (VRef a)" .
    fix k x
    from frozen_rejects_writes(1) [OF fr] show "assign_property h' a k x = Inl TypeError" .
    assume "find_property k (props (h' ! a)) \<noteq> None"
    from frozen_rejects_writes(2) [OF fr this] show "delete_property h' a k = Inl TypeError" .
  }
  {
    assume "\<not> unfrozen_path h root a"
    from t(5) [OF this] show "h' ! a = h ! a" .
  }
qed

text \<open>\<open>a.ref = b; b.ref = a\<close>: two plain objects that refer to each other.\<close>

definition mutual_graph :: heap where
  "mutual_graph =
     [plain_object False [data_prop ''name'' (VPrim (PString ''a'')), data_prop ''ref'' (VRef 1)],
      plain_object False [data_prop ''name'' (VPrim (PString ''b'')), data_prop ''ref'' (VRef 0)]]"

lemmas freeze_defs = freeze_def isFreezable_def scheduled_at_def scheduled_def

text \<open>
  A root with a cycle through a symbol key and a Set, an array, a Map with an object as key,
  a child that was frozen before the call, and a callable with a property of its own.
\<close>

definition mixed_graph :: heap where
  "mixed_graph =
     [plain_object False
        [data_prop ''list'' (VRef 1), symbol_prop 0 (VRef 3), data_prop ''locked'' (VRef 6),
         data_prop ''run'' (VRef 8)],
      array_object False [VPrim (PNumber 1), VRef 2],
      \<lparr>kind = KMap [(VRef 4, VRef 5)], frozen = False, props = []\<rparr>,
      \<lparr>kind = KSet [VRef 0, VRef 5], frozen = False, props = []\<rparr>,
      plain_object False [],
      plain_object False [data_prop ''name'' (VPrim (PString ''a''))],
      plain_object True [data_prop ''inner'' (VRef 7)],
      plain_object False [],
      function_object False [data_prop ''data'' (VRef 9)],
      plain_object False []]"

lemma mixed_graph_paths: "unfrozen_path mixed_graph 0 a \<Longrightarrow> a \<in> {0, 1, 2, 3, 4, 5, 6}"
proof (induction rule: unfrozen_path.induct)
  case path_start
  show ?case by simp
next
  case (path_child b c)
  from path_child.IH path_child.hyps(2) have "b \<in> {0, 1, 2, 3, 4, 5}"
    by (auto simp: mixed_graph_def platform_defs example_defs)
  with path_child.hyps(3) show ?case
    by (auto simp: mixed_graph_def child_defs platform_defs example_defs)
qed

theorem freeze_reaches_every_unfrozen_path_witness:
  "fst (freeze idle_call mixed_graph (VRef 0)) = Inr (VRef 0) \<and>
   Object_isFrozen (snd (freeze idle_call mixed_graph (VRef 0))) (VRef 0) \<and>
   Object_isFrozen (snd (freeze idle_call mixed_graph (VRef 0))) (VRef 1) \<and>
   Object_isFrozen (snd (freeze idle_call mixed_graph (VRef 0))) (VRef 2) \<and>
   Object_isFrozen (snd (freeze idle_call mixed_graph (VRef 0))) (VRef 3) \<and>
   Object_isFrozen (snd (freeze idle_call mixed_graph (VRef 0))) (VRef 4) \<and>
   Object_isFrozen (snd (freeze idle_call mixed_graph (VRef 0))) (VRef 5) \<and>
   assign_property (snd (freeze idle_call mixed_graph (VRef 0))) 5 (KStr ''name'') VNull
     = Inl TypeError \<and>
   assign_property (snd (freeze idle_call mixed_graph (VRef 0))) 5 (KStr ''other'') VNull
     = Inl TypeError \<and>
   delete_property (snd (freeze idle_call mixed_graph (VRef 0))) 5 (KStr ''name'') = Inl TypeError \<and>
   snd (freeze idle_call mixed_graph (VRef 0)) ! 7 = mixed_graph ! 7 \<and>
   snd (freeze idle_call mixed_graph (VRef 0)) ! 8 = mixed_graph ! 8 \<and>
   snd (freeze idle_call mixed_graph (VRef 0)) ! 9 = mixed_graph ! 9"
proof -
  obtain r h' where run: "freeze idle_call mixed_graph (VRef 0) = (Inr r, h')"
    by (simp add: mixed_graph_def freeze_defs platform_defs example_defs)
  have ty: "typeof mixed_graph (VRef 0) = TObject"
    by (simp add: mixed_graph_def platform_defs example_defs)
  have nf: "\<not> Object_isFrozen mixed_graph (VRef 0)" "\<not> Object_isFrozen mixed_graph (VRef 1)"
    "\<not> Object_isFrozen mixed_graph (VRef 2)" "\<not> Object_isFrozen mixed_graph (VRef 3)"
    by (simp_all add: mixed_graph_def platform_defs example_defs)
  have "isFreezable mixed_graph (VRef 0) = Inr False"
    by (simp add: mixed_graph_def isFreezable_def platform_defs example_defs)
  with isFreezable_declares [OF ty] have nd: "\<forall>f. \<not> declares_freeze mixed_graph 0 f" by simp
  have ch: "child_of mixed_graph 0 1" "child_of mixed_graph 0 3" "child_of mixed_graph 1 2"
    "child_of mixed_graph 2 4" "child_of mixed_graph 2 5"
    by (simp_all add: mixed_graph_def child_defs platform_defs example_defs)
  have p0: "unfrozen_path mixed_graph 0 0" by (rule path_start)
  from path_child [OF p0 nf(1) ch(1)] have p1: "unfrozen_path mixed_graph 0 1" .
  from path_child [OF p0 nf(1) ch(2)] have p3: "unfrozen_path mixed_graph 0 3" .
  from path_child [OF p1 nf(2) ch(3)] have p2: "unfrozen_path mixed_graph 0 2" .
  from path_child [OF p2 nf(3) ch(4)] have p4: "unfrozen_path mixed_graph 0 4" .
  from path_child [OF p2 nf(3) ch(5)] have p5: "unfrozen_path mixed_graph 0 5" .
  have n: "\<not> unfrozen_path mixed_graph 0 7" "\<not> unfrozen_path mixed_graph 0 8"
    "\<not> unfrozen_path mixed_graph 0 9"
    using mixed_graph_paths by fastforce+
  have pr: "find_property (KStr ''name'') (props (h' ! 5)) \<noteq> None"
    using run by (auto simp: mixed_graph_def freeze_defs platform_defs example_defs)
  from freeze_reaches_every_unfrozen_path [OF run ty nf(1) nd] p0 p1 p2 p3 p4 p5 n pr
  show ?thesis by (simp add: run)
qed

text \<open>
  The claim as stated fails below a node that was frozen before the call:
  \<open>{ mid: Object.freeze({ inner: {} }) }\<close>. The loop pops \<open>mid\<close>, finds it frozen and skips it
  without pushing its children, so \<open>inner\<close> stays mutable.
\<close>

definition nested_frozen_graph :: heap where
  "nested_frozen_graph =
     [plain_object False [data_prop ''mid'' (VRef 1)],
      plain_object True [data_prop ''inner'' (VRef 2)],
      plain_object False []]"

theorem freeze_skips_below_frozen_node:
  "fst (freeze idle_call nested_frozen_graph (VRef 0)) = Inr (VRef 0) \<and>
   \<not> Object_isFrozen (snd (freeze idle_call nested_frozen_graph (VRef 0))) (VRef 2) \<and>
   assign_property (snd (freeze idle_call nested_frozen_graph (VRef 0))) 2 (KStr ''x'') VNull
     \<noteq> Inl TypeError"
  by (simp add: nested_frozen_graph_def freeze_defs platform_defs example_defs
      assign_property_def)

section \<open>Claim C6: freezing twice\<close>

text \<open>
  Claim C6, as amended. Whenever the first call returns a value that is atomic or
  single-level frozen, which it always does unless it handed the root to a custom
  \<open>freeze()\<close>, a second call on the result returns the same reference and leaves the heap
  as it is, through the early returns for atomic and already-frozen values; and without a
  custom \<open>freeze()\<close> the first call returns the root itself.
\<close>

theorem freeze_idempotent_unless_delegated:
  assumes "freeze call h v = (Inr r, h1)"
    and "isFreezable h v = Inr True \<Longrightarrow> isShallowFrozen h1 r"
  shows "isShallowFrozen h1 r \<and> freeze call' h1 r = (Inr r, h1) \<and>
         (isFreezable h v \<noteq> Inr True \<longrightarrow> r = v)"
proof -
  have sf: "isShallowFrozen h1 r"
  proof (cases "isFreezable h v = Inr True")
    case True
    then show ?thesis by (rule assms(2))
  next
    case False
    from freeze_native_result [OF assms(1) False] show ?thesis by simp
  qed
  moreover from sf have "freeze call' h1 r = (Inr r, h1)" by (rule isShallowFrozen_refreeze)
  moreover have "isFreezable h v \<noteq> Inr True \<longrightarrow> r = v"
    using freeze_native_result [OF assms(1)] by blast
  ultimately show ?thesis by blast
qed

text \<open>A custom freeze that returns \<open>this.inner\<close> untouched.\<close>

definition inner_call :: call_sem where
  "inner_call f a h = (Inr (VRef 2), h)"

definition delegating_graph :: heap where
  "delegating_graph =
     [plain_object False [data_prop ''freeze'' (VRef 1), data_prop ''inner'' (VRef 2)],
      function_object False [],
      plain_object False []]"

text \<open>
  The claim as stated fails for \<open>{ inner, freeze() { return this.inner } }\<close>: the first call
  returns \<open>inner\<close> untouched, the second call traverses and freezes it.
\<close>

theorem freeze_twice_after_delegation:
  "freeze inner_call delegating_graph (VRef 0) = (Inr (VRef 2), delegating_graph) \<and>
   \<not> isShallowFrozen delegating_graph (VRef 2) \<and>
   snd (freeze inner_call delegating_graph (VRef 2)) \<noteq> delegating_graph"
  by (simp add: delegating_graph_def inner_call_def invoke_freeze_def isShallowFrozen_def
      freeze_defs platform_defs example_defs)

theorem freeze_idempotent_unless_delegated_witness:
  "isShallowFrozen (snd (freeze idle_call mutual_graph (VRef 0))) (VRef 0) \<and>
   freeze idle_call (snd (freeze idle_call mutual_graph (VRef 0))) (VRef 0)
     = (Inr (VRef 0), snd (freeze idle_call mutual_graph (VRef 0)))"
proof -
  obtain h' where run: "freeze idle_call mutual_graph (VRef 0) = (Inr (VRef 0), h')"
    by (simp add: mutual_graph_def freeze_defs platform_defs example_defs)
  have nd: "isFreezable mutual_graph (VRef 0) = Inr True \<Longrightarrow> isShallowFrozen h' (VRef 0)"
    by (simp add: mutual_graph_def isFreezable_def platform_defs example_defs)
  from freeze_idempotent_unless_delegated [OF run nd, of idle_call] show ?thesis
    by (simp add: run)
qed

section \<open>Claim C3: the custom freeze capability\<close>

text \<open>
  Claim C3, as amended. Only the root is tested for the capability. A root of type object
  that is not yet single-level frozen and has a member \<open>freeze\<close>, own or inherited through
  its prototype chain, whose value is a callable, is handed to that callable: \<open>freeze\<close>
  returns what the call returns and does nothing else. When the root does not declare the
  capability and \<open>freeze\<close> returns, no \<open>freeze()\<close> of any node was called, the result being
  the same whatever calls would do; every node on a path of children from the root is
  single-level frozen by the engine itself, and where such a node declares the capability
  the engine has descended into its children like into those of any other container.
\<close>

theorem freeze_delegates_at_root_only:
  "(declares_freeze h a f \<longrightarrow> typeof h (VRef a) = TObject \<longrightarrow> \<not> Object_isFrozen h (VRef a) \<longrightarrow>
      freeze call h (VRef a) = call f a h) \<and>
   ((\<forall>g. \<not> declares_freeze h root g) \<longrightarrow> typeof h (VRef root) = TObject \<longrightarrow>
    \<not> Object_isFrozen h (VRef root) \<longrightarrow> freeze call h (VRef root) = (Inr r, h') \<longrightarrow>
      r = VRef root \<and>
      (\<forall>call'. freeze call' h (VRef root) = (Inr r, h')) \<and>
      (\<forall>b. unfrozen_path h root b \<longrightarrow> Object_isFrozen h' (VRef b)) \<and>
      (\<forall>b g c. unfrozen_path h root b \<longrightarrow> declares_freeze h b g \<longrightarrow>
         \<not> Object_isFrozen h (VRef b) \<longrightarrow> child_of h b c \<longrightarrow> Object_isFrozen h' (VRef c)))"
proof (intro conjI impI allI)
  assume "declares_freeze h a f" "typeof h (VRef a) = TObject" "\<not> Object_isFrozen h (VRef a)"
  then show "freeze call h (VRef a) = call f a h" by (rule freeze_delegated)
next
  assume a: "\<forall>g. \<not> declares_freeze h root g" "typeof h (VRef root) = TObject"
    "\<not> Object_isFrozen h (VRef root)" "freeze call h (VRef root) = (Inr r, h')"
  note t = freeze_traversal [OF a(4) a(2) a(3) a(1)]
  from t(1) show "r = VRef root" .
  {
    fix call'
    from t(3) show "freeze call' h (VRef root) = (Inr r, h')" .
  }
  {
    fix b assume "unfrozen_path h root b"
    from t(4) [OF this] show "Object_isFrozen h' (VRef b)" .
  }
  {
    fix b g c
    assume "unfrozen_path h root b" "\<not> Object_isFrozen h (VRef b)" "child_of h b c"
    then have "unfrozen_path h root c" by (rule path_child)
    from t(4) [OF this] show "Object_isFrozen h' (VRef c)" .
  }
qed

definition throwing_call :: call_sem where
  "throwing_call f a h = (Inl (Thrown VUndefined), h)"

definition nested_freezable_graph :: heap where
  "nested_freezable_graph =
     [plain_object False [data_prop ''child'' (VRef 1)],
      plain_object False [data_prop ''freeze'' (VRef 3), data_prop ''inner'' (VRef 2)],
      plain_object False [],
      function_object False []]"

text \<open>An instance of a class with a method \<open>freeze\<close>: the member is inherited.\<close>

definition instance_graph :: heap where
  "instance_graph =
     [\<lparr>kind = KCustom 1, frozen = False, props = [data_prop ''inner'' (VRef 3)]\<rparr>,
      plain_object False
        [\<lparr>pname = KStr ''freeze'', enumerable = False, slot = Data (VRef 2)\<rparr>],
      function_object False [],
      plain_object False []]"

theorem freeze_delegates_at_root_only_witness:
  "freeze throwing_call instance_graph (VRef 0) = (Inl (Thrown VUndefined), instance_graph) \<and>
   fst (freeze throwing_call nested_freezable_graph (VRef 0)) = Inr (VRef 0) \<and>
   freeze idle_call nested_freezable_graph (VRef 0)
     = freeze throwing_call nested_freezable_graph (VRef 0) \<and>
   Object_isFrozen (snd (freeze throwing_call nested_freezable_graph (VRef 0))) (VRef 1) \<and>
   Object_isFrozen (snd (freeze throwing_call nested_freezable_graph (VRef 0))) (VRef 2)"
proof -
  have m: "member instance_graph (KStr ''freeze'') 0
             \<lparr>pname = KStr ''freeze'', enumerable = False, slot = Data (VRef 2)\<rparr>"
    by (rule member_inherited [where q = 1], simp_all add: instance_graph_def example_defs)
       (rule member_own, simp_all add: example_defs)
  have d: "declares_freeze instance_graph 0 2"
    by (rule declares_freezeI [OF m])
       (simp_all add: instance_graph_def platform_defs example_defs)
  have ty: "typeof instance_graph (VRef 0) = TObject"
    "\<not> Object_isFrozen instance_graph (VRef 0)"
    by (simp_all add: instance_graph_def platform_defs example_defs)
  obtain r h' where run: "freeze throwing_call nested_freezable_graph (VRef 0) = (Inr r, h')"
    by (simp add: nested_freezable_graph_def freeze_defs platform_defs example_defs)
  have ty2: "typeof nested_freezable_graph (VRef 0) = TObject"
    "\<not> Object_isFrozen nested_freezable_graph (VRef 0)"
    "\<not> Object_isFrozen nested_freezable_graph (VRef 1)"
    by (simp_all add: nested_freezable_graph_def platform_defs example_defs)
  have "isFreezable nested_freezable_graph (VRef 0) = Inr False"
    by (simp add: nested_freezable_graph_def isFreezable_def platform_defs example_defs)
  with isFreezable_declares [OF ty2(1)]
  have nd: "\<forall>g. \<not> declares_freeze nested_freezable_graph 0 g" by simp
  have "isFreezable nested_freezable_graph (VRef 1) = Inr True"
    by (simp add: nested_freezable_graph_def isFreezable_def platform_defs example_defs)
  with isFreezable_declares [of nested_freezable_graph 1]
  obtain g where d1: "declares_freeze nested_freezable_graph 1 g"
    by (auto simp: nested_freezable_graph_def platform_defs example_defs)
  have ch: "child_of nested_freezable_graph 0 1" "child_of nested_freezable_graph 1 2"
    by (simp_all add: nested_freezable_graph_def child_defs platform_defs example_defs)
  from path_child [OF path_start ty2(2) ch(1)]
  have p1: "unfrozen_path nested_freezable_graph 0 1" .
  from freeze_delegates_at_root_only
         [where h = instance_graph and a = 0 and f = 2 and call = throwing_call] d ty
  have one: "freeze throwing_call instance_graph (VRef 0)
               = (Inl (Thrown VUndefined), instance_graph)"
    by (simp add: throwing_call_def)
  from freeze_delegates_at_root_only
         [where h = nested_freezable_graph and root = 0 and call = throwing_call and r = r
            and h' = h'] nd ty2 run
  have two: "r = VRef 0" "\<forall>call'. freeze call' nested_freezable_graph (VRef 0) = (Inr r, h')"
    "\<forall>b. unfrozen_path nested_freezable_graph 0 b \<longrightarrow> Object_isFrozen h' (VRef b)"
    "\<forall>b g c. unfrozen_path nested_freezable_graph 0 b \<longrightarrow>
       declares_freeze nested_freezable_graph b g \<longrightarrow>
       \<not> Object_isFrozen nested_freezable_graph (VRef b) \<longrightarrow>
       child_of nested_freezable_graph b c \<longrightarrow> Object_isFrozen h' (VRef c)"
    by simp_all
  from two(3) p1 have "Object_isFrozen h' (VRef 1)" by blast
  moreover from two(4) p1 d1 ty2(3) ch(2) have "Object_isFrozen h' (VRef 2)" by blast
  ultimately show ?thesis using one two(1,2) run by simp
qed

text \<open>
  The claim as stated fails for a node below the root: \<open>{ child: { inner: {}, freeze() {...} } }\<close>.
  The child declares the capability, yet its \<open>freeze()\<close>, which here would throw, is not
  called; the loop freezes the child itself and descends into \<open>inner\<close>.
\<close>

theorem freeze_ignores_capability_below_root:
  "isFreezable nested_freezable_graph (VRef 1) = Inr True \<and>
   freeze throwing_call nested_freezable_graph (VRef 0) =
     (Inr (VRef 0),
      [plain_object True [data_prop ''child'' (VRef 1)],
       plain_object True [data_prop ''freeze'' (VRef 3), data_prop ''inner'' (VRef 2)],
       plain_object True [],
       function_object False []])"
  by (simp add: nested_freezable_graph_def freeze_defs platform_defs example_defs)

lemma freeze_result_heap:
  "snd (freeze call h v) = h \<or>
   (\<exists>a. v = VRef a \<and> isFreezable h v = Inr True) \<or>
   (\<exists>a. v = VRef a \<and> \<not> Object_isFrozen h v \<and> isFreezable h v = Inr False \<and>
        snd (freeze call h v) = snd (freeze_loop h [a] {}))"
proof (cases "v = VNull \<or> v = VUndefined \<or> (typeof h v \<noteq> TObject \<and> typeof h v \<noteq> TFunction)
    \<or> Object_isFrozen h v")
  case True
  then show ?thesis by (auto simp: freeze_def)
next
  case False
  then obtain a where a: "v = VRef a"
    by (cases v) (auto simp: typeof_def Object_isFrozen_def split: prim.splits)
  show ?thesis
  proof (cases "isFreezable h v")
    case (Inl e)
    with False show ?thesis by (simp add: freeze_def)
  next
    case (Inr b)
    show ?thesis
    proof (cases b)
      case True
      with Inr a show ?thesis by simp
    next
      case False
      with Inr have nb: "isFreezable h v = Inr False" by simp
      from \<open>\<not> (v = VNull \<or> v = VUndefined \<or> (typeof h v \<noteq> TObject \<and> typeof h v \<noteq> TFunction)
          \<or> Object_isFrozen h v)\<close>
      have "\<not> Object_isFrozen h v" by blast
      with freeze_snd_loop [OF a this nb] a nb show ?thesis by blast
    qed
  qed
qed

section \<open>Claim C7: callables\<close>

text \<open>
  Claim C7, as amended. A callable reachable as a child is an opaque leaf: it is never
  scheduled; a call of \<open>freeze\<close> on a root that is not a callable and is not handed to a
  custom \<open>freeze()\<close> leaves every function object exactly as it was; a callable yields no
  children, so an object that no container other than callables holds is exactly as it was
  after the call; \<open>deepClone\<close> returns a callable by identity and allocates nothing. A
  callable passed as the root of \<open>freeze\<close>, however, is frozen by the branch for objects
  with a custom prototype.
\<close>

theorem callable_is_leaf_below_root:
  assumes "heap_get h f = Some ob" and "kind ob = KFunction"
  shows "(scheduled_at h a = Inr cs \<longrightarrow> f \<notin> set cs) \<and>
         (typeof h v \<noteq> TFunction \<longrightarrow> isFreezable h v \<noteq> Inr True \<longrightarrow>
            heap_get (snd (freeze call h v)) f = Some ob) \<and>
         (typeof h (VRef root) = TObject \<longrightarrow> \<not> Object_isFrozen h (VRef root) \<longrightarrow>
          (\<forall>g. \<not> declares_freeze h root g) \<longrightarrow> freeze call h (VRef root) = (Inr r, h') \<longrightarrow>
            (\<forall>b. b \<noteq> root \<longrightarrow> (\<forall>c. \<not> child_of h c b) \<longrightarrow> h' ! b = h ! b)) \<and>
         (\<forall>b. \<not> child_of h f b) \<and>
         deepClone (Suc d) h (VRef f) visited = (Inr (VRef f), h, visited) \<and>
         heap_get (snd (freeze call h (VRef f))) f = Some (ob\<lparr>frozen := True\<rparr>)"
proof (intro conjI impI allI)
  from assms have tf: "typeof h (VRef f) = TFunction" by (simp add: typeof_def)
  {
    assume "scheduled_at h a = Inr cs"
    with tf show "f \<notin> set cs" using scheduled_is_object [of h a cs f] by auto
  }
  {
    assume nt: "typeof h v \<noteq> TFunction" and nd: "isFreezable h v \<noteq> Inr True"
    from freeze_result_heap [of call h v]
    show "heap_get (snd (freeze call h v)) f = Some ob"
    proof (elim disjE exE conjE)
      assume "snd (freeze call h v) = h"
      with assms show ?thesis by simp
    next
      fix b assume "isFreezable h v = Inr True"
      with nd show ?thesis by simp
    next
      fix b assume b: "v = VRef b" "\<not> Object_isFrozen h v"
        "snd (freeze call h v) = snd (freeze_loop h [b] {})"
      then have "typeof h v = TObject" using nt
        by (auto simp: typeof_def Object_isFrozen_def split: option.splits)
      with b have "\<forall>s\<in>set [b]. typeof h (VRef s) = TObject" by simp
      from freeze_loop_functions [OF this assms, of "{}"] b(3) show ?thesis
        by (simp del: freeze_loop.simps)
    qed
  }
  {
    fix b
    assume a: "typeof h (VRef root) = TObject" "\<not> Object_isFrozen h (VRef root)"
      "\<forall>g. \<not> declares_freeze h root g" "freeze call h (VRef root) = (Inr r, h')"
      and b: "b \<noteq> root" "\<forall>c. \<not> child_of h c b"
    have "\<not> unfrozen_path h root b"
    proof
      assume "unfrozen_path h root b"
      then show False using b by (cases rule: unfrozen_path.cases) auto
    qed
    from freeze_traversal(5) [OF a(4) a(1) a(2) a(3) this] show "h' ! b = h ! b" .
  }
  {
    fix b
    from assms show "\<not> child_of h f b"
      by (auto simp: child_of_def yields_def heap_get_def split: if_splits)
  }
  from tf show "deepClone (Suc d) h (VRef f) visited = (Inr (VRef f), h, visited)" by simp
  show "heap_get (snd (freeze call h (VRef f))) f = Some (ob\<lparr>frozen := True\<rparr>)"
  proof (cases "frozen ob")
    case True
    with assms have "Object_isFrozen h (VRef f)" by (simp add: Object_isFrozen_def)
    then have "snd (freeze call h (VRef f)) = h" by (simp add: freeze_def)
    with assms True show ?thesis by simp
  next
    case False
    with assms have nf: "\<not> Object_isFrozen h (VRef f)" by (simp add: Object_isFrozen_def)
    from tf have nz: "isFreezable h (VRef f) = Inr False" by (simp add: isFreezable_def)
    from freeze_snd_loop [OF refl nf nz]
    have eq: "snd (freeze call h (VRef f)) = snd (freeze_loop h [f] {})" .
    from assms obtain cs where cs: "scheduled_at h f = Inr cs"
      by (simp add: scheduled_at_def scheduled_def)
    with nf have "snd (freeze_loop h [f] {}) =
        snd (freeze_loop (Object_freeze h f) (rev cs @ []) (insert f {}))" by simp
    moreover have "Object_isFrozen (Object_freeze h f) (VRef f)"
      by (simp add: isFrozen_after_freeze)
    ultimately have fr: "Object_isFrozen (snd (freeze_loop h [f] {})) (VRef f)"
      using freeze_loop_monotone by simp
    from refreezing_heap_get [OF freeze_loop_refreezing assms(1), of "[f]" "{}"]
    obtain b where b: "heap_get (snd (freeze_loop h [f] {})) f = Some (ob\<lparr>frozen := b\<rparr>)" by blast
    with fr have "b" by (simp add: Object_isFrozen_def)
    with b eq show ?thesis by simp
  qed
qed

text \<open>
  The claim as stated fails for a function at the root: \<open>function f() {}\<close> with its own
  \<open>prototype\<close> object. \<open>freeze(f)\<close> freezes \<open>f\<close> and descends into \<open>f.prototype\<close>.
\<close>

definition callable_root_graph :: heap where
  "callable_root_graph =
     [function_object False [data_prop ''prototype'' (VRef 1)], plain_object False []]"

theorem freeze_callable_root:
  "typeof callable_root_graph (VRef 0) = TFunction \<and>
   freeze idle_call callable_root_graph (VRef 0) =
     (Inr (VRef 0),
      [function_object True [data_prop ''prototype'' (VRef 1)], plain_object True []])"
  by (simp add: callable_root_graph_def freeze_defs platform_defs example_defs)

text \<open>\<open>{ f }\<close> where the function \<open>f\<close> has a property of its own, \<open>f.data = {}\<close>.\<close>

definition callable_child_graph :: heap where
  "callable_child_graph =
     [plain_object False [data_prop ''f'' (VRef 1)],
      function_object False [data_prop ''data'' (VRef 2)],
      plain_object False []]"

theorem callable_is_leaf_below_root_witness:
  "heap_get (snd (freeze idle_call callable_child_graph (VRef 0))) 1
     = Some (function_object False [data_prop ''data'' (VRef 2)]) \<and>
   snd (freeze idle_call callable_child_graph (VRef 0)) ! 2 = plain_object False [] \<and>
   Object_isFrozen (snd (freeze idle_call callable_child_graph (VRef 0))) (VRef 0) \<and>
   deepClone (Suc 0) callable_child_graph (VRef 1) Map.empty
     = (Inr (VRef 1), callable_child_graph, Map.empty) \<and>
   heap_get (snd (freeze idle_call callable_child_graph (VRef 1))) 1
     = Some (function_object True [data_prop ''data'' (VRef 2)])"
proof -
  have g: "heap_get callable_child_graph 1
             = Some (function_object False [data_prop ''data'' (VRef 2)])"
    by (simp add: callable_child_graph_def heap_get_def)
  have k: "kind (function_object False [data_prop ''data'' (VRef 2)]) = KFunction"
    by (simp add: function_object_def)
  have t: "typeof callable_child_graph (VRef 0) \<noteq> TFunction"
    "typeof callable_child_graph (VRef 0) = TObject"
    "\<not> Object_isFrozen callable_child_graph (VRef 0)"
    by (simp_all add: callable_child_graph_def platform_defs example_defs)
  have z: "isFreezable callable_child_graph (VRef 0) \<noteq> Inr True"
    by (simp add: callable_child_graph_def isFreezable_def platform_defs example_defs)
  with isFreezable_declares [OF t(2)]
  have nd: "\<forall>g. \<not> declares_freeze callable_child_graph 0 g" by simp
  obtain r h' where run: "freeze idle_call callable_child_graph (VRef 0) = (Inr r, h')"
    by (simp add: callable_child_graph_def freeze_defs platform_defs example_defs)
  have nc: "\<forall>c. \<not> child_of callable_child_graph c 2"
  proof
    fix c
    show "\<not> child_of callable_child_graph c 2"
    proof (cases "c < 3")
      case True
      then have "c = 0 \<or> c = 1 \<or> c = 2" by auto
      then show ?thesis
        by (auto simp: callable_child_graph_def child_defs platform_defs example_defs)
    next
      case False
      then show ?thesis by (simp add: child_of_def callable_child_graph_def)
    qed
  qed
  have fr: "Object_isFrozen h' (VRef 0)"
    using run by (auto simp: callable_child_graph_def freeze_defs platform_defs example_defs)
  from callable_is_leaf_below_root
         [OF g k, of 0 "[]" "VRef 0" idle_call 0 r h' 0 Map.empty] t z nd run nc fr
  show ?thesis
    by (simp add: run) (simp add: callable_child_graph_def example_defs)
qed

section \<open>Claim C8: the path finder\<close>

text \<open>
  The path finder and the deep-frozen predicate walk the graph in the same order, with the
  same visited set and the same handlers; their results correspond call by call.
\<close>

definition agrees :: "(string option) visiting \<Rightarrow> bool visiting \<Rightarrow> bool" where
  "agrees f c =
     (snd f = snd c \<and>
      (case fst f of
         Inl e \<Rightarrow> fst c = Inl e
       | Inr None \<Rightarrow> fst c = Inr True
       | Inr (Some p) \<Rightarrow> fst c = Inr False))"

lemma agrees_cases:
  assumes "agrees (rf, vf) (rc, vc)"
  obtains e where "rf = Inl e" "rc = Inl e" "vf = vc"
  | "rf = Inr None" "rc = Inr True" "vf = vc"
  | p where "rf = Inr (Some p)" "rc = Inr False" "vf = vc"
  using assms by (auto simp: agrees_def split: sum.splits option.splits)

lemma find_in_items_agrees:
  assumes "\<And>v p vis. agrees (fnd v p vis) (chk v vis)"
  shows "agrees (find_in_items fnd path i vs vis) (every_child chk vs vis)"
proof (induction vs arbitrary: i vis)
  case Nil
  show ?case by (simp add: agrees_def)
next
  case (Cons v vs)
  let ?p = "sub_path path (''['' @ index_string i @ '']'') (''['' @ index_string i @ '']'')"
  obtain rf vf where f: "fnd v ?p vis = (rf, vf)" by (cases "fnd v ?p vis")
  obtain rc vc where c: "chk v vis = (rc, vc)" by (cases "chk v vis")
  from assms [of v ?p vis] f c have "agrees (rf, vf) (rc, vc)" by simp
  then show ?case
  proof (cases rule: agrees_cases)
    case (1 e)
    with f c show ?thesis by (simp add: agrees_def)
  next
    case 2
    with f c Cons.IH [of "Suc i" vc] show ?thesis by simp
  next
    case (3 p)
    with f c show ?thesis by (simp add: agrees_def)
  qed
qed

lemma find_in_members_agrees:
  assumes "\<And>v p vis. agrees (fnd v p vis) (chk v vis)"
  shows "agrees (find_in_members fnd path i vs vis) (every_child chk vs vis)"
proof (induction vs arbitrary: i vis)
  case Nil
  show ?case by (simp add: agrees_def)
next
  case (Cons v vs)
  let ?p = "sub_path path (''.values()['' @ index_string i @ '']'')
              (''values()['' @ index_string i @ '']'')"
  obtain rf vf where f: "fnd v ?p vis = (rf, vf)" by (cases "fnd v ?p vis")
  obtain rc vc where c: "chk v vis = (rc, vc)" by (cases "chk v vis")
  from assms [of v ?p vis] f c have "agrees (rf, vf) (rc, vc)" by simp
  then show ?case
  proof (cases rule: agrees_cases)
    case (1 e)
    with f c show ?thesis by (simp add: agrees_def)
  next
    case 2
    with f c Cons.IH [of "Suc i" vc] show ?thesis by simp
  next
    case (3 p)
    with f c show ?thesis by (simp add: agrees_def)
  qed
qed

lemma find_in_entries_agrees:
  assumes "\<And>v p vis. agrees (fnd v p vis) (chk v vis)"
    and "\<And>k. \<exists>s. str k = Inr s"
  shows "agrees (find_in_entries fnd str path i es vis) (every_child chk (flatten_entries es) vis)"
proof (induction es arbitrary: i vis)
  case Nil
  show ?case by (simp add: agrees_def)
next
  case (Cons kv es)
  obtain k v where kv: "kv = (k, v)" by (cases kv)
  let ?pk = "sub_path path (''.keys()['' @ index_string i @ '']'')
               (''keys()['' @ index_string i @ '']'')"
  obtain rf vf where f: "fnd k ?pk vis = (rf, vf)" by (cases "fnd k ?pk vis")
  obtain rc vc where c: "chk k vis = (rc, vc)" by (cases "chk k vis")
  from assms(1) [of k ?pk vis] f c have "agrees (rf, vf) (rc, vc)" by simp
  then show ?case
  proof (cases rule: agrees_cases)
    case (1 e)
    with f c kv show ?thesis by (simp add: agrees_def)
  next
    case 2
    obtain s where s: "str k = Inr s" using assms(2) by blast
    let ?pv = "sub_path path (''.get('' @ s @ '')'') (''get('' @ s @ '')'')"
    obtain rf' vf' where f': "fnd v ?pv vc = (rf', vf')" by (cases "fnd v ?pv vc")
    obtain rc' vc' where c': "chk v vc = (rc', vc')" by (cases "chk v vc")
    from assms(1) [of v ?pv vc] f' c' have "agrees (rf', vf') (rc', vc')" by simp
    then show ?thesis
    proof (cases rule: agrees_cases)
      case (1 e)
      with 2 f c f' c' s kv show ?thesis by (simp add: agrees_def)
    next
      case 2
      with \<open>rf = Inr None\<close> \<open>rc = Inr True\<close> \<open>vf = vc\<close> f c f' c' s kv
        Cons.IH [of "Suc i" vc'] show ?thesis by simp
    next
      case (3 p)
      with 2 f c f' c' s kv show ?thesis by (simp add: agrees_def)
    qed
  next
    case (3 p)
    with f c kv show ?thesis by (simp add: agrees_def)
  qed
qed

lemma find_in_properties_agrees:
  assumes "\<And>v p vis. agrees (fnd v p vis) (chk v vis)"
  shows "agrees (find_in_properties fnd path ps vis) (every_property chk ps vis)"
proof (induction ps arbitrary: vis)
  case Nil
  show ?case by (simp add: agrees_def)
next
  case (Cons q ps)
  show ?case
  proof (cases "read_prop q")
    case (Inl e)
    with Cons.IH [of vis] show ?thesis by simp
  next
    case (Inr v)
    let ?p = "sub_path path (''.'' @ key_name (pname q)) (key_name (pname q))"
    obtain rf vf where f: "fnd v ?p vis = (rf, vf)" by (cases "fnd v ?p vis")
    obtain rc vc where c: "chk v vis = (rc, vc)" by (cases "chk v vis")
    from assms [of v ?p vis] f c have "agrees (rf, vf) (rc, vc)" by simp
    then show ?thesis
    proof (cases rule: agrees_cases)
      case (1 e)
      with f c Inr Cons.IH [of vc] show ?thesis by simp
    next
      case 2
      with f c Inr Cons.IH [of vc] show ?thesis by simp
    next
      case (3 p)
      with f c Inr show ?thesis by (simp add: agrees_def)
    qed
  qed
qed

lemma findUnfrozenPathImpl_agrees:
  assumes "\<And>k. \<exists>s. str h k = Inr s"
  shows "agrees (findUnfrozenPathImpl d str h v path vis) (isFrozenImpl d h v vis)"
proof (induction d arbitrary: v path vis)
  case 0
  show ?case by (simp add: agrees_def)
next
  case (Suc d)
  have rec: "\<And>v p vis. agrees (findUnfrozenPathImpl d str h v p vis) (isFrozenImpl d h v vis)"
    using Suc.IH by blast
  note loops = find_in_items_agrees [of "findUnfrozenPathImpl d str h" "isFrozenImpl d h", OF rec]
    find_in_members_agrees [of "findUnfrozenPathImpl d str h" "isFrozenImpl d h", OF rec]
    find_in_entries_agrees [of "findUnfrozenPathImpl d str h" "isFrozenImpl d h" "str h", OF rec assms]
    find_in_properties_agrees [of "findUnfrozenPathImpl d str h" "isFrozenImpl d h", OF rec]
  show ?case
  proof (cases v)
    case (VRef a)
    show ?thesis
    proof (cases "heap_get h a")
      case None
      with VRef show ?thesis by (simp add: agrees_def)
    next
      case (Some ob)
      show ?thesis
      proof (cases "a \<in> vis \<or> \<not> Object_isFrozen h v \<or> (typeof h v \<noteq> TObject \<and> typeof h v \<noteq> TFunction)")
        case True
        with VRef Some show ?thesis by (auto simp: agrees_def)
      next
        case False
        then have "a \<notin> vis" "Object_isFrozen h (VRef a)"
          "typeof h (VRef a) = TObject \<or> typeof h (VRef a) = TFunction"
          using VRef by auto
        with VRef Some loops show ?thesis by (cases "kind ob") auto
      qed
    qed
  qed (simp_all add: agrees_def)
qed

text \<open>
  The graphs of the examples: \<open>Object.freeze({ a: Object.freeze({ x: 1 }), b: { y: 2 } })\<close>,
  \<open>Object.freeze({ arr: Object.freeze([Object.freeze({ ok: true }), { notFrozen: true }]) })\<close>
  and \<open>Object.freeze({ nested: { mutable: true } })\<close>.
\<close>

definition sibling_graph :: heap where
  "sibling_graph =
     [plain_object True [data_prop ''a'' (VRef 1), data_prop ''b'' (VRef 2)],
      plain_object True [data_prop ''x'' (VPrim (PNumber 1))],
      plain_object False [data_prop ''y'' (VPrim (PNumber 2))]]"

definition array_graph :: heap where
  "array_graph =
     [plain_object True [data_prop ''arr'' (VRef 1)],
      array_object True [VRef 2, VRef 3],
      plain_object True [data_prop ''ok'' (VPrim (PBoolean True))],
      plain_object False [data_prop ''notFrozen'' (VPrim (PBoolean True))]]"

definition shallow_graph :: heap where
  "shallow_graph =
     [plain_object True [data_prop ''nested'' (VRef 1)],
      plain_object False [data_prop ''mutable'' (VPrim (PBoolean True))]]"

lemma index_string_digits [simp]: "index_string 0 = ''0''" "index_string (Suc 0) = ''1''"
  by (simp_all add: index_string.simps digit_char_def)

lemma sibling_path:
  "findUnfrozenPath (Suc (Suc (Suc d))) str sibling_graph (VRef 0) = Inr (Some ''b'')"
  by (simp add: sibling_graph_def findUnfrozenPath_def sub_path_def platform_defs example_defs)

lemma array_path:
  "findUnfrozenPath (Suc (Suc (Suc (Suc d)))) str array_graph (VRef 0) = Inr (Some ''arr[1]'')"
  by (simp add: array_graph_def findUnfrozenPath_def sub_path_def platform_defs example_defs)

lemma shallow_path:
  "findUnfrozenPath (Suc (Suc d)) str shallow_graph (VRef 0) = Inr (Some ''nested'')"
  by (simp add: shallow_graph_def findUnfrozenPath_def sub_path_def platform_defs example_defs)

lemma findUnfrozenPath_isFrozen:
  assumes "\<And>k. \<exists>s. str h k = Inr s"
  shows "(findUnfrozenPath d str h v = Inr None \<longleftrightarrow> isFrozen d h v = Inr True) \<and>
         ((\<exists>p. findUnfrozenPath d str h v = Inr (Some p)) \<longleftrightarrow> isFrozen d h v = Inr False)"
proof -
  obtain rf vf where f: "findUnfrozenPathImpl d str h v [] {} = (rf, vf)"
    by (cases "findUnfrozenPathImpl d str h v [] {}")
  obtain rc vc where c: "isFrozenImpl d h v {} = (rc, vc)" by (cases "isFrozenImpl d h v {}")
  from findUnfrozenPathImpl_agrees [of str h d v "[]" "{}", OF assms] f c
  have "agrees (rf, vf) (rc, vc)" by simp
  then show ?thesis
    by (cases rule: agrees_cases) (use f c in \<open>simp_all add: findUnfrozenPath_def isFrozen_def\<close>)
qed

lemma findUnfrozenPath_root:
  assumes "\<not> isShallowFrozen h v"
  shows "findUnfrozenPath (Suc d) str h v = Inr (Some ''(root)'')"
proof -
  from assms have nn: "v \<noteq> VNull" "v \<noteq> VUndefined"
    and ty: "\<not> (typeof h v \<noteq> TObject \<and> typeof h v \<noteq> TFunction)"
    and nf: "\<not> Object_isFrozen h v"
    by (auto simp: isShallowFrozen_def split: if_splits)
  from nf obtain a ob where a: "v = VRef a" "heap_get h a = Some ob"
    by (auto simp: Object_isFrozen_def split: val.splits option.splits)
  from nn ty nf a show ?thesis
    by (simp add: findUnfrozenPath_def)
qed

text \<open>
  Claim C8. The claim expects the location of the first node that is not single-level
  frozen, and null only for a graph that is frozen throughout. \<open>findUnfrozenPathImpl\<close>
  enumerates \<open>Object.getOwnPropertyNames\<close> only, as \<open>isFrozenImpl\<close> does: on the frozen object
  whose only child, not frozen, sits under a symbol key it returns null. With the same child
  under the string key \<open>nested\<close> it returns that key.
\<close>

theorem findUnfrozenPath_skips_symbol_keys:
  "isShallowFrozen symbol_graph (VRef 0) \<and> \<not> isShallowFrozen symbol_graph (VRef 1) \<and>
   child_of symbol_graph 0 1 \<and>
   findUnfrozenPath (Suc d) str symbol_graph (VRef 0) = Inr None \<and>
   findUnfrozenPath (Suc (Suc d)) str shallow_graph (VRef 0) = Inr (Some ''nested'')"
  using shallow_path [of d str]
  by (simp add: symbol_graph_def findUnfrozenPath_def isShallowFrozen_def child_defs
      platform_defs example_defs)

section \<open>What the clone engine builds\<close>

text \<open>
  The values an object holds: its elements, entries or members, and the values of its
  properties.
\<close>

fun slot_vals :: "slot \<Rightarrow> val list" where
  "slot_vals (Data v) = [v]"
| "slot_vals (Accessor r) = (case r of Inl e \<Rightarrow> [] | Inr v \<Rightarrow> [v])"

definition kind_vals :: "kind \<Rightarrow> val list" where
  "kind_vals k =
     (case k of KArray items \<Rightarrow> items | KMap es \<Rightarrow> flatten_entries es | KSet items \<Rightarrow> items
      | _ \<Rightarrow> [])"

definition obj_vals :: "obj \<Rightarrow> val list" where
  "obj_vals ob = kind_vals (kind ob) @ concat (map (\<lambda>p. slot_vals (slot p)) (props ob))"

fun is_data :: "slot \<Rightarrow> bool" where
  "is_data (Data v) = True"
| "is_data (Accessor r) = False"

definition data_only :: "obj \<Rightarrow> bool" where
  "data_only ob = (\<forall>p\<in>set (props ob). is_data (slot p))"

lemma is_data_iff: "is_data s \<longleftrightarrow> (\<exists>v. s = Data v)"
  by (cases s) simp_all

lemma data_only_iff: "data_only ob \<longleftrightarrow> (\<forall>p\<in>set (props ob). \<exists>v. slot p = Data v)"
  by (simp add: data_only_def is_data_iff)

text \<open>
  While a graph of \<open>n0\<close> objects is cloned, the heap has an old part, the addresses below
  \<open>n0\<close>, and a new part, the clones. An old value is a primitive or a reference into the old
  part; a new value is a primitive or a reference into the new part.
\<close>

definition old_val :: "nat \<Rightarrow> val \<Rightarrow> bool" where
  "old_val n0 v = (case v of VRef a \<Rightarrow> a < n0 | _ \<Rightarrow> True)"

definition new_val :: "nat \<Rightarrow> heap \<Rightarrow> val \<Rightarrow> bool" where
  "new_val n0 H v = (case v of VRef r \<Rightarrow> n0 \<le> r \<and> r < length H | _ \<Rightarrow> True)"

text \<open>
  An object of the graph to clone: not a function, data properties only, every reference
  it holds points into the graph.
\<close>

definition source_ok :: "nat \<Rightarrow> obj \<Rightarrow> bool" where
  "source_ok n0 ob =
     (kind ob \<noteq> KFunction \<and> data_only ob \<and> (\<forall>v\<in>set (obj_vals ob). old_val n0 v))"

text \<open>
  A clone under construction or finished: not frozen, holding new values only, and of a
  shape whose properties the deep-frozen predicate and the freeze loop enumerate alike.
\<close>

definition tame :: "obj \<Rightarrow> bool" where
  "tame ob =
     (case kind ob of
        KPlain \<Rightarrow> (\<forall>p\<in>set (props ob). enumerable p)
      | KNullProto \<Rightarrow> (\<forall>p\<in>set (props ob). enumerable p)
      | KCustom p \<Rightarrow> True
      | KFunction \<Rightarrow> False
      | _ \<Rightarrow> props ob = [])"

definition clone_ok :: "nat \<Rightarrow> heap \<Rightarrow> obj \<Rightarrow> bool" where
  "clone_ok n0 H ob =
     (\<not> frozen ob \<and> tame ob \<and> data_only ob \<and> (\<forall>v\<in>set (obj_vals ob). new_val n0 H v))"

text \<open>The invariant of the clone engine, with the clone map.\<close>

definition cloning :: "nat \<Rightarrow> heap \<Rightarrow> clone_map \<Rightarrow> bool" where
  "cloning n0 H vis =
     (n0 \<le> length H \<and>
      (\<forall>a<n0. source_ok n0 (H ! a)) \<and>
      (\<forall>a. n0 \<le> a \<and> a < length H \<longrightarrow> clone_ok n0 H (H ! a)) \<and>
      (\<forall>a c. vis a = Some c \<longrightarrow> a < n0 \<and> (\<exists>r. c = VRef r \<and> n0 \<le> r \<and> r < length H)))"

text \<open>The number of objects of the graph not yet in the clone map bounds the call depth.\<close>

definition unvisited :: "nat \<Rightarrow> clone_map \<Rightarrow> nat" where
  "unvisited n0 vis = card {a. a < n0 \<and> vis a = None}"

lemma unvisited_mono: "vis \<subseteq>\<^sub>m vis' \<Longrightarrow> unvisited n0 vis' \<le> unvisited n0 vis"
proof -
  assume m: "vis \<subseteq>\<^sub>m vis'"
  have "{a. a < n0 \<and> vis' a = None} \<subseteq> {a. a < n0 \<and> vis a = None}"
  proof
    fix a assume "a \<in> {a. a < n0 \<and> vis' a = None}"
    then have a: "a < n0" "vis' a = None" by auto
    have "vis a = None"
    proof (cases "vis a")
      case (Some c)
      then have "a \<in> dom vis" by auto
      with m have "vis a = vis' a" by (auto simp: map_le_def)
      with Some a show ?thesis by simp
    qed simp
    with a show "a \<in> {a. a < n0 \<and> vis a = None}" by simp
  qed
  then show ?thesis unfolding unvisited_def by (intro card_mono) auto
qed

lemma unvisited_visit:
  assumes "a < n0" "vis a = None"
  shows "unvisited n0 (vis(a \<mapsto> c)) < unvisited n0 vis"
proof -
  have "{x. x < n0 \<and> (vis(a \<mapsto> c)) x = None} \<subset> {x. x < n0 \<and> vis x = None}"
    using assms by auto
  then show ?thesis unfolding unvisited_def by (intro psubset_card_mono) auto
qed

lemma new_val_mono: "new_val n0 H v \<Longrightarrow> length H \<le> length H' \<Longrightarrow> new_val n0 H' v"
  by (auto simp: new_val_def split: val.splits)

lemma clone_ok_mono: "clone_ok n0 H ob \<Longrightarrow> length H \<le> length H' \<Longrightarrow> clone_ok n0 H' ob"
  by (auto simp: clone_ok_def intro: new_val_mono)

text \<open>Allocation of an empty clone.\<close>

lemma new_object_ok:
  "k \<noteq> KFunction \<Longrightarrow> \<forall>v\<in>set (kind_vals k). new_val n0 H v \<Longrightarrow> clone_ok n0 H (new_object k)"
  by (cases k) (auto simp: clone_ok_def new_object_def tame_def data_only_iff obj_vals_def)

lemma cloning_alloc:
  assumes "cloning n0 H vis" and "k \<noteq> KFunction" and "kind_vals k = []"
  shows "cloning n0 (H @ [new_object k]) vis"
  unfolding cloning_def
proof (intro conjI)
  from assms(1) show "n0 \<le> length (H @ [new_object k])" by (simp add: cloning_def)
  from assms(1) show "\<forall>a<n0. source_ok n0 ((H @ [new_object k]) ! a)"
    by (simp add: cloning_def nth_append)
  show "\<forall>a. n0 \<le> a \<and> a < length (H @ [new_object k])
        \<longrightarrow> clone_ok n0 (H @ [new_object k]) ((H @ [new_object k]) ! a)"
  proof (intro allI impI)
    fix a assume a: "n0 \<le> a \<and> a < length (H @ [new_object k])"
    show "clone_ok n0 (H @ [new_object k]) ((H @ [new_object k]) ! a)"
    proof (cases "a < length H")
      case True
      with a assms(1) have "clone_ok n0 H (H ! a)" by (simp add: cloning_def)
      then have "clone_ok n0 (H @ [new_object k]) (H ! a)" by (rule clone_ok_mono) simp
      with True show ?thesis by (simp add: nth_append)
    next
      case False
      with a have "a = length H" by simp
      with assms(2,3) show ?thesis by (simp add: new_object_ok)
    qed
  qed
  from assms(1) show "\<forall>a c. vis a = Some c
        \<longrightarrow> a < n0 \<and> (\<exists>r. c = VRef r \<and> n0 \<le> r \<and> r < length (H @ [new_object k]))"
    by (fastforce simp: cloning_def)
qed

lemma cloning_visit:
  assumes "cloning n0 H vis" and "a < n0" and "n0 \<le> c" and "c < length H"
  shows "cloning n0 H (vis(a \<mapsto> VRef c))"
  using assms by (auto simp: cloning_def)

text \<open>A store into the clone under construction keeps the invariant.\<close>

lemma cloning_update:
  assumes "cloning n0 H vis" and "n0 \<le> c" and "c < length H" and "clone_ok n0 H ob"
  shows "cloning n0 (H[c := ob]) vis"
  unfolding cloning_def
proof (intro conjI)
  from assms(1) show "n0 \<le> length (H[c := ob])" by (simp add: cloning_def)
  from assms(1,2) show "\<forall>a<n0. source_ok n0 (H[c := ob] ! a)" by (simp add: cloning_def)
  show "\<forall>a. n0 \<le> a \<and> a < length (H[c := ob]) \<longrightarrow> clone_ok n0 (H[c := ob]) (H[c := ob] ! a)"
  proof (intro allI impI)
    fix a assume a: "n0 \<le> a \<and> a < length (H[c := ob])"
    show "clone_ok n0 (H[c := ob]) (H[c := ob] ! a)"
    proof (cases "a = c")
      case True
      with assms(3,4) show ?thesis by (simp add: clone_ok_mono)
    next
      case False
      with a assms(1) have "clone_ok n0 H (H ! a)" by (simp add: cloning_def)
      with False show ?thesis by (simp add: clone_ok_mono)
    qed
  qed
  from assms(1) show "\<forall>a r. vis a = Some r
        \<longrightarrow> a < n0 \<and> (\<exists>x. r = VRef x \<and> n0 \<le> x \<and> x < length (H[c := ob]))"
    by (fastforce simp: cloning_def)
qed

lemma cloning_clone_ok: "cloning n0 H vis \<Longrightarrow> n0 \<le> c \<Longrightarrow> c < length H \<Longrightarrow> clone_ok n0 H (H ! c)"
  by (simp add: cloning_def)

lemma set_flatten_entries: "set (flatten_entries es) = fst ` set es \<union> snd ` set es"
  by (induction es rule: flatten_entries.induct) auto

lemma set_entries_set: "set (flatten_entries (entries_set es k v)) \<subseteq> set (flatten_entries es) \<union> {k, v}"
  by (induction es k v rule: entries_set.induct) auto

lemma array_store_ok:
  assumes "cloning n0 H vis" and "n0 \<le> c" and "c < length H" and "new_val n0 H x"
  shows "cloning n0 (array_store H c i x) vis"
proof (cases "kind (H ! c)")
  case (KArray items)
  let ?items = "if i < length items then items[i := x]
                else items @ replicate (i - length items) VUndefined @ [x]"
  from cloning_clone_ok [OF assms(1-3)] have ok: "clone_ok n0 H (H ! c)" .
  have "set ?items \<subseteq> set items \<union> {x, VUndefined}"
    using set_update_subset_insert [of items i x] by auto
  with ok KArray assms(4) have "clone_ok n0 H ((H ! c)\<lparr>kind := KArray ?items\<rparr>)"
    by (auto simp: clone_ok_def tame_def data_only_iff obj_vals_def kind_vals_def new_val_def)
  from cloning_update [OF assms(1-3) this] KArray show ?thesis by (simp add: array_store_def)
qed (use assms in \<open>simp_all add: array_store_def\<close>)

lemma map_store_ok:
  assumes "cloning n0 H vis" and "n0 \<le> c" and "c < length H" and "new_val n0 H k" "new_val n0 H x"
  shows "cloning n0 (map_store H c k x) vis"
proof (cases "kind (H ! c)")
  case (KMap es)
  from cloning_clone_ok [OF assms(1-3)] have ok: "clone_ok n0 H (H ! c)" .
  with KMap assms(4,5) set_entries_set [of es k x]
  have "clone_ok n0 H ((H ! c)\<lparr>kind := KMap (entries_set es k x)\<rparr>)"
    by (auto simp: clone_ok_def tame_def data_only_iff obj_vals_def kind_vals_def)
  from cloning_update [OF assms(1-3) this] KMap show ?thesis by (simp add: map_store_def)
qed (use assms in \<open>simp_all add: map_store_def\<close>)

lemma set_store_ok:
  assumes "cloning n0 H vis" and "n0 \<le> c" and "c < length H" and "new_val n0 H x"
  shows "cloning n0 (set_store H c x) vis"
proof (cases "kind (H ! c)")
  case (KSet items)
  from cloning_clone_ok [OF assms(1-3)] have ok: "clone_ok n0 H (H ! c)" .
  with KSet assms(4)
  have "clone_ok n0 H ((H ! c)\<lparr>kind := KSet (if x \<in> set items then items else items @ [x])\<rparr>)"
    by (auto simp: clone_ok_def tame_def data_only_iff obj_vals_def kind_vals_def)
  from cloning_update [OF assms(1-3) this] KSet show ?thesis by (simp add: set_store_def)
qed (use assms in \<open>simp_all add: set_store_def\<close>)

lemma store_property_ok:
  assumes "cloning n0 H vis" and "n0 \<le> c" and "c < length H" and "new_val n0 H x"
    and "kind (H ! c) = KPlain \<or> kind (H ! c) = KNullProto"
  shows "cloning n0 (store_property H c k x) vis"
    and "kind (store_property H c k x ! c) = kind (H ! c)"
proof -
  let ?ob = "H ! c"
  let ?ps = "if find_property k (props ?ob) = None
             then props ?ob @ [\<lparr>pname = k, enumerable = True, slot = Data x\<rparr>]
             else map (\<lambda>p. if pname p = k then p\<lparr>slot := Data x\<rparr> else p) (props ?ob)"
  from cloning_clone_ok [OF assms(1-3)] have ok: "clone_ok n0 H ?ob" .
  then have eq: "store_property H c k x = H[c := ?ob\<lparr>props := ?ps\<rparr>]"
    using assms(3) by (simp add: store_property_def assign_property_def heap_get_def clone_ok_def)
  have "clone_ok n0 H (?ob\<lparr>props := ?ps\<rparr>)"
    using ok assms(4,5)
    by (auto simp: clone_ok_def tame_def data_only_iff obj_vals_def)
  from cloning_update [OF assms(1-3) this] eq show "cloning n0 (store_property H c k x) vis"
    by simp
  from eq assms(3) show "kind (store_property H c k x ! c) = kind (H ! c)" by simp
qed

lemma define_property_ok:
  assumes "cloning n0 H vis" and "n0 \<le> c" and "c < length H" and "new_val n0 H x"
    and "kind (H ! c) = KCustom q"
  shows "cloning n0 (define_property H c (p\<lparr>slot := Data x\<rparr>)) vis"
    and "kind (define_property H c (p\<lparr>slot := Data x\<rparr>) ! c) = kind (H ! c)"
proof -
  let ?ob = "H ! c"
  let ?p = "p\<lparr>slot := Data x\<rparr>"
  let ?ps = "if find_property (pname ?p) (props ?ob) = None then props ?ob @ [?p]
             else map (\<lambda>q. if pname q = pname ?p then ?p else q) (props ?ob)"
  from cloning_clone_ok [OF assms(1-3)] have ok: "clone_ok n0 H ?ob" .
  have eq: "define_property H c ?p = H[c := ?ob\<lparr>props := ?ps\<rparr>]"
    by (simp add: define_property_def)
  have "clone_ok n0 H (?ob\<lparr>props := ?ps\<rparr>)"
    using ok assms(4,5)
    by (auto simp: clone_ok_def tame_def data_only_iff obj_vals_def)
  from cloning_update [OF assms(1-3) this] eq show "cloning n0 (define_property H c ?p) vis"
    by simp
  from eq assms(3) show "kind (define_property H c ?p ! c) = kind (H ! c)" by simp
qed

lemma store_frames:
  "length (array_store H c i x) = length H" "a \<noteq> c \<Longrightarrow> array_store H c i x ! a = H ! a"
  "length (map_store H c k x) = length H" "a \<noteq> c \<Longrightarrow> map_store H c k x ! a = H ! a"
  "length (set_store H c x) = length H" "a \<noteq> c \<Longrightarrow> set_store H c x ! a = H ! a"
  "length (define_property H c p) = length H" "a \<noteq> c \<Longrightarrow> define_property H c p ! a = H ! a"
  "length (store_property H c pk x) = length H" "a \<noteq> c \<Longrightarrow> store_property H c pk x ! a = H ! a"
  by (auto simp: array_store_def map_store_def set_store_def define_property_def
      store_property_def assign_property_def heap_get_def split: kind.splits)

lemma store_takes:
  "take c (array_store H c i x) = take c H"
  "take c (map_store H c k x) = take c H"
  "take c (set_store H c x) = take c H"
  "take c (define_property H c p) = take c H"
  "take c (store_property H c pk x) = take c H"
  by (intro nth_equalityI; simp add: store_frames)+

text \<open>
  \<open>building n0 c H0 H vis\<close>: a loop that fills the clone at address \<open>c\<close>, started on heap
  \<open>H0\<close>, has reached heap \<open>H\<close>. \<open>cloner_spec n0 k cl\<close> is what a recursive call with \<open>k\<close>
  frames guarantees; \<open>loop_spec\<close> is what a loop over the children guarantees.
\<close>

definition building :: "nat \<Rightarrow> addr \<Rightarrow> heap \<Rightarrow> heap \<Rightarrow> clone_map \<Rightarrow> bool" where
  "building n0 c H0 H vis =
     (cloning n0 H vis \<and> n0 \<le> c \<and> c < length H0 \<and> length H0 \<le> length H \<and> take c H = take c H0)"

definition cloner_spec :: "nat \<Rightarrow> nat \<Rightarrow> cloner \<Rightarrow> bool" where
  "cloner_spec n0 k cl =
     (\<forall>H v vis. cloning n0 H vis \<longrightarrow> old_val n0 v \<longrightarrow>
        (case cl H v vis of
           (r, H', vis') \<Rightarrow>
             take (length H) H' = H \<and> cloning n0 H' vis' \<and> vis \<subseteq>\<^sub>m vis' \<and>
             (case r of Inl e \<Rightarrow> e = RangeError \<and> \<not> unvisited n0 vis < k
              | Inr x \<Rightarrow> new_val n0 H' x)))"

definition loop_spec ::
  "nat \<Rightarrow> nat \<Rightarrow> addr \<Rightarrow> heap \<Rightarrow> clone_map \<Rightarrow> error option \<times> heap \<times> clone_map \<Rightarrow> bool" where
  "loop_spec n0 k c H0 vis res =
     (case res of
        (r, H', vis') \<Rightarrow>
          building n0 c H0 H' vis' \<and> vis \<subseteq>\<^sub>m vis' \<and>
          (case r of Some e \<Rightarrow> e = RangeError \<and> \<not> unvisited n0 vis < k | None \<Rightarrow> True))"

lemma cloner_step:
  assumes "cloner_spec n0 k cl" and "building n0 c H0 H vis" and "old_val n0 v"
    and "cl H v vis = (r, H1, vis1)"
  shows "building n0 c H0 H1 vis1" and "vis \<subseteq>\<^sub>m vis1" and "H1 ! c = H ! c"
    and "case r of Inl e \<Rightarrow> e = RangeError \<and> \<not> unvisited n0 vis < k | Inr x \<Rightarrow> new_val n0 H1 x"
    and "length H \<le> length H1"
proof -
  from assms(2) have cl: "cloning n0 H vis" and c: "n0 \<le> c" "c < length H0" "length H0 \<le> length H"
    and tk: "take c H = take c H0"
    by (simp_all add: building_def)
  from assms(1) cl assms(3,4)
  have sp: "take (length H) H1 = H" "cloning n0 H1 vis1" "vis \<subseteq>\<^sub>m vis1"
    "case r of Inl e \<Rightarrow> e = RangeError \<and> \<not> unvisited n0 vis < k | Inr x \<Rightarrow> new_val n0 H1 x"
    by (auto simp: cloner_spec_def split: prod.splits)
  from sp(1) have "length (take (length H) H1) = length H" by simp
  then have len: "length H \<le> length H1" by (simp add: min_def split: if_splits)
  from c have "take (length H) H1 ! c = H1 ! c" by simp
  with sp(1) have nth: "H1 ! c = H ! c" by simp
  have "take c H1 = take c (take (length H) H1)" using c by (simp add: min_def)
  with sp(1) tk have "take c H1 = take c H0" by simp
  with sp(2) c len show "building n0 c H0 H1 vis1" by (simp add: building_def)
  from sp(3) show "vis \<subseteq>\<^sub>m vis1" .
  from nth show "H1 ! c = H ! c" .
  from sp(4) show "case r of Inl e \<Rightarrow> e = RangeError \<and> \<not> unvisited n0 vis < k
      | Inr x \<Rightarrow> new_val n0 H1 x" .
  from len show "length H \<le> length H1" .
qed

lemma loop_spec_cont:
  assumes "loop_spec n0 k c H0 vis1 res" and "vis \<subseteq>\<^sub>m vis1"
  shows "loop_spec n0 k c H0 vis res"
proof -
  from assms(2) have "unvisited n0 vis1 \<le> unvisited n0 vis" by (rule unvisited_mono)
  with assms show ?thesis
    by (auto simp: loop_spec_def split: prod.splits option.splits intro: map_le_trans)
qed

lemma clone_items_spec:
  assumes "cloner_spec n0 k cl"
  shows "building n0 c H0 H vis \<Longrightarrow> \<forall>v\<in>set vs. old_val n0 v \<Longrightarrow>
         loop_spec n0 k c H0 vis (clone_items cl c i vs H vis)"
proof (induction vs arbitrary: i H vis)
  case Nil
  then show ?case by (simp add: loop_spec_def)
next
  case (Cons v vs)
  obtain r H1 vis1 where st: "cl H v vis = (r, H1, vis1)" by (cases "cl H v vis")
  from Cons.prems have ov: "old_val n0 v" by simp
  note step = cloner_step [OF assms Cons.prems(1) ov st]
  show ?case
  proof (cases r)
    case (Inl e)
    with st step show ?thesis by (simp add: loop_spec_def)
  next
    case (Inr x)
    with step(4) have nx: "new_val n0 H1 x" by simp
    from step(1) have b: "cloning n0 H1 vis1" "n0 \<le> c" "c < length H1" "c < length H0"
      "length H0 \<le> length H1" "take c H1 = take c H0"
      by (auto simp: building_def)
    from array_store_ok [OF b(1-3) nx] b
    have "building n0 c H0 (array_store H1 c i x) vis1"
      by (simp add: building_def store_takes store_frames)
    from Cons.IH [OF this] Cons.prems(2)
    have "loop_spec n0 k c H0 vis1 (clone_items cl c (Suc i) vs (array_store H1 c i x) vis1)"
      by simp
    from loop_spec_cont [OF this step(2)] st Inr show ?thesis by simp
  qed
qed

lemma clone_members_spec:
  assumes "cloner_spec n0 k cl"
  shows "building n0 c H0 H vis \<Longrightarrow> \<forall>v\<in>set vs. old_val n0 v \<Longrightarrow>
         loop_spec n0 k c H0 vis (clone_members cl c vs H vis)"
proof (induction vs arbitrary: H vis)
  case Nil
  then show ?case by (simp add: loop_spec_def)
next
  case (Cons v vs)
  obtain r H1 vis1 where st: "cl H v vis = (r, H1, vis1)" by (cases "cl H v vis")
  from Cons.prems have ov: "old_val n0 v" by simp
  note step = cloner_step [OF assms Cons.prems(1) ov st]
  show ?case
  proof (cases r)
    case (Inl e)
    with st step show ?thesis by (simp add: loop_spec_def)
  next
    case (Inr x)
    with step(4) have nx: "new_val n0 H1 x" by simp
    from step(1) have b: "cloning n0 H1 vis1" "n0 \<le> c" "c < length H1" "c < length H0"
      "length H0 \<le> length H1" "take c H1 = take c H0"
      by (auto simp: building_def)
    from set_store_ok [OF b(1-3) nx] b
    have "building n0 c H0 (set_store H1 c x) vis1"
      by (simp add: building_def store_takes store_frames)
    from Cons.IH [OF this] Cons.prems(2)
    have "loop_spec n0 k c H0 vis1 (clone_members cl c vs (set_store H1 c x) vis1)"
      by simp
    from loop_spec_cont [OF this step(2)] st Inr show ?thesis by simp
  qed
qed

lemma clone_entries_spec:
  assumes "cloner_spec n0 k cl"
  shows "building n0 c H0 H vis \<Longrightarrow> \<forall>v\<in>set (flatten_entries es). old_val n0 v \<Longrightarrow>
         loop_spec n0 k c H0 vis (clone_entries cl c es H vis)"
proof (induction es arbitrary: H vis)
  case Nil
  then show ?case by (simp add: loop_spec_def)
next
  case (Cons kv es)
  obtain ky v where kv: "kv = (ky, v)" by (cases kv)
  obtain r H1 vis1 where st: "cl H ky vis = (r, H1, vis1)" by (cases "cl H ky vis")
  from Cons.prems kv have ov: "old_val n0 ky" "old_val n0 v" by simp_all
  note step = cloner_step [OF assms Cons.prems(1) ov(1) st]
  show ?case
  proof (cases r)
    case (Inl e)
    with st step kv show ?thesis by (simp add: loop_spec_def)
  next
    case (Inr xk)
    with step(4) have nk: "new_val n0 H1 xk" by simp
    obtain r2 H2 vis2 where st2: "cl H1 v vis1 = (r2, H2, vis2)" by (cases "cl H1 v vis1")
    note step2 = cloner_step [OF assms step(1) ov(2) st2]
    from step(2) step2(2) have m: "vis \<subseteq>\<^sub>m vis2" by (rule map_le_trans)
    from step(2) have um: "unvisited n0 vis1 \<le> unvisited n0 vis" by (rule unvisited_mono)
    show ?thesis
    proof (cases r2)
      case (Inl e)
      with st st2 step2 Inr kv m um show ?thesis by (simp add: loop_spec_def)
    next
      case (Inr xv)
      with step2(4) have nv: "new_val n0 H2 xv" by simp
      from step2(1) have b: "cloning n0 H2 vis2" "n0 \<le> c" "c < length H2" "c < length H0"
        "length H0 \<le> length H2" "take c H2 = take c H0"
        by (auto simp: building_def)
      from nk step2(5) have nk2: "new_val n0 H2 xk" by (rule new_val_mono)
      from map_store_ok [OF b(1-3) nk2 nv] b
      have "building n0 c H0 (map_store H2 c xk xv) vis2"
        by (simp add: building_def store_takes store_frames)
      from Cons.IH [OF this] Cons.prems(2) kv
      have "loop_spec n0 k c H0 vis2 (clone_entries cl c es (map_store H2 c xk xv) vis2)"
        by simp
      from loop_spec_cont [OF this m] st st2 \<open>r = Inr xk\<close> Inr kv show ?thesis by simp
    qed
  qed
qed

lemma clone_assigned_spec:
  assumes "cloner_spec n0 k cl"
  shows "building n0 c H0 H vis \<Longrightarrow> kind (H ! c) = KPlain \<or> kind (H ! c) = KNullProto \<Longrightarrow>
         \<forall>p\<in>set ps. \<exists>v. slot p = Data v \<and> old_val n0 v \<Longrightarrow>
         loop_spec n0 k c H0 vis (clone_assigned cl c ps H vis)"
proof (induction ps arbitrary: H vis)
  case Nil
  then show ?case by (simp add: loop_spec_def)
next
  case (Cons p ps)
  from Cons.prems(3) obtain v where v: "slot p = Data v" "old_val n0 v" by auto
  then have rd: "read_prop p = Inr v" by (simp add: read_prop_def)
  obtain r H1 vis1 where st: "cl H v vis = (r, H1, vis1)" by (cases "cl H v vis")
  note step = cloner_step [OF assms Cons.prems(1) v(2) st]
  show ?case
  proof (cases r)
    case (Inl e)
    with st step rd show ?thesis by (simp add: loop_spec_def)
  next
    case (Inr x)
    with step(4) have nx: "new_val n0 H1 x" by simp
    from step(1) have b: "cloning n0 H1 vis1" "n0 \<le> c" "c < length H1" "c < length H0"
      "length H0 \<le> length H1" "take c H1 = take c H0"
      by (auto simp: building_def)
    from Cons.prems(2) step(3) have kd: "kind (H1 ! c) = KPlain \<or> kind (H1 ! c) = KNullProto"
      by simp
    let ?H2 = "store_property H1 c (pname p) x"
    from store_property_ok [OF b(1-3) nx kd, of "pname p"] b
    have b2: "building n0 c H0 ?H2 vis1" and k2: "kind (?H2 ! c) = KPlain \<or> kind (?H2 ! c) = KNullProto"
      using kd by (simp_all add: building_def store_takes store_frames)
    from Cons.IH [OF b2 k2] Cons.prems(3)
    have "loop_spec n0 k c H0 vis1 (clone_assigned cl c ps ?H2 vis1)" by simp
    from loop_spec_cont [OF this step(2)] st Inr rd show ?thesis by simp
  qed
qed

lemma clone_described_spec:
  assumes "cloner_spec n0 k cl"
  shows "building n0 c H0 H vis \<Longrightarrow> kind (H ! c) = KCustom q \<Longrightarrow>
         \<forall>p\<in>set ps. \<exists>v. slot p = Data v \<and> old_val n0 v \<Longrightarrow>
         loop_spec n0 k c H0 vis (clone_described cl c ps H vis)"
proof (induction ps arbitrary: H vis)
  case Nil
  then show ?case by (simp add: loop_spec_def)
next
  case (Cons p ps)
  from Cons.prems(3) obtain v where v: "slot p = Data v" "old_val n0 v" by auto
  obtain r H1 vis1 where st: "cl H v vis = (r, H1, vis1)" by (cases "cl H v vis")
  note step = cloner_step [OF assms Cons.prems(1) v(2) st]
  show ?case
  proof (cases r)
    case (Inl e)
    with st step v show ?thesis by (simp add: loop_spec_def)
  next
    case (Inr x)
    with step(4) have nx: "new_val n0 H1 x" by simp
    from step(1) have b: "cloning n0 H1 vis1" "n0 \<le> c" "c < length H1" "c < length H0"
      "length H0 \<le> length H1" "take c H1 = take c H0"
      by (auto simp: building_def)
    from Cons.prems(2) step(3) have kd: "kind (H1 ! c) = KCustom q" by simp
    let ?H2 = "define_property H1 c (p\<lparr>slot := Data x\<rparr>)"
    from define_property_ok [OF b(1-3) nx kd, of p] b
    have b2: "building n0 c H0 ?H2 vis1" and k2: "kind (?H2 ! c) = KCustom q"
      using kd by (simp_all add: building_def store_takes store_frames)
    from Cons.IH [OF b2 k2] Cons.prems(3)
    have "loop_spec n0 k c H0 vis1 (clone_described cl c ps ?H2 vis1)" by simp
    from loop_spec_cont [OF this step(2)] st Inr v show ?thesis by simp
  qed
qed

text \<open>The start of a container's clone: allocate, record in the clone map.\<close>

lemma building_start:
  assumes "cloning n0 H vis" and "a < n0" and "k0 \<noteq> KFunction" and "kind_vals k0 = []"
  shows "building n0 (length H) (H @ [new_object k0]) (H @ [new_object k0])
           (vis(a \<mapsto> VRef (length H)))"
proof -
  from assms(1) have n: "n0 \<le> length H" by (simp add: cloning_def)
  from cloning_alloc [OF assms(1,3,4)] have "cloning n0 (H @ [new_object k0]) vis" .
  from cloning_visit [OF this assms(2), of "length H"] n
  have "cloning n0 (H @ [new_object k0]) (vis(a \<mapsto> VRef (length H)))" by simp
  with n show ?thesis by (simp add: building_def)
qed

lemma finish_clone_spec:
  assumes "loop_spec n0 d (length H) (H @ [ob]) (vis(a \<mapsto> VRef (length H))) res"
    and "cloning n0 H vis" and "a < n0" and "vis a = None"
    and "finish_clone (length H) res = (r, H', vis')"
  shows "take (length H) H' = H \<and> cloning n0 H' vis' \<and> vis \<subseteq>\<^sub>m vis' \<and>
         (case r of Inl e \<Rightarrow> e = RangeError \<and> \<not> unvisited n0 vis < Suc d | Inr x \<Rightarrow> new_val n0 H' x)"
proof -
  obtain lr where res: "res = (lr, H', vis')"
    using assms(5) by (cases res) (auto simp: finish_clone_def split: option.splits)
  from assms(1) res have b: "building n0 (length H) (H @ [ob]) H' vis'"
    and m: "vis(a \<mapsto> VRef (length H)) \<subseteq>\<^sub>m vis'"
    and e: "case lr of Some e \<Rightarrow> e = RangeError \<and> \<not> unvisited n0 (vis(a \<mapsto> VRef (length H))) < d
            | None \<Rightarrow> True"
    by (simp_all add: loop_spec_def)
  from b have tk: "take (length H) H' = H" and cl: "cloning n0 H' vis'"
    and len: "length H < length H'" and n: "n0 \<le> length H"
    by (simp_all add: building_def)
  from assms(4) have "vis \<subseteq>\<^sub>m vis(a \<mapsto> VRef (length H))" by (auto simp: map_le_def)
  then have m2: "vis \<subseteq>\<^sub>m vis'" using m by (rule map_le_trans)
  from assms(3,4)
  have lt: "unvisited n0 (vis(a \<mapsto> VRef (length H))) < unvisited n0 vis"
    by (rule unvisited_visit)
  show ?thesis
  proof (cases lr)
    case None
    with res assms(5) have "r = Inr (VRef (length H))" by (simp add: finish_clone_def)
    with tk cl m2 len n show ?thesis by (simp add: new_val_def)
  next
    case (Some x)
    with res assms(5) have "r = Inl x" by (simp add: finish_clone_def)
    with Some e lt tk cl m2 show ?thesis by auto
  qed
qed

lemma source_vals:
  assumes "source_ok n0 ob"
  shows "\<forall>v\<in>set (kind_vals (kind ob)). old_val n0 v"
    and "\<forall>p\<in>set (props ob). \<exists>v. slot p = Data v \<and> old_val n0 v"
proof -
  from assms show "\<forall>v\<in>set (kind_vals (kind ob)). old_val n0 v"
    by (simp add: source_ok_def obj_vals_def)
  show "\<forall>p\<in>set (props ob). \<exists>v. slot p = Data v \<and> old_val n0 v"
  proof
    fix p assume p: "p \<in> set (props ob)"
    with assms obtain v where v: "slot p = Data v" by (auto simp: source_ok_def data_only_iff)
    with p have "v \<in> set (obj_vals ob)" by (force simp: obj_vals_def)
    with assms v show "\<exists>v. slot p = Data v \<and> old_val n0 v" by (simp add: source_ok_def)
  qed
qed

lemma deepClone_spec: "cloner_spec n0 d (deepClone d)"
proof (induction d)
  case 0
  show ?case by (simp add: cloner_spec_def)
next
  case (Suc d)
  show ?case
    unfolding cloner_spec_def
  proof (intro allI impI)
    fix H v vis
    assume cl: "cloning n0 H vis" and ov: "old_val n0 v"
    obtain r H' vis' where res: "deepClone (Suc d) H v vis = (r, H', vis')"
      by (cases "deepClone (Suc d) H v vis")
    have "take (length H) H' = H \<and> cloning n0 H' vis' \<and> vis \<subseteq>\<^sub>m vis' \<and>
          (case r of Inl e \<Rightarrow> e = RangeError \<and> \<not> unvisited n0 vis < Suc d
           | Inr x \<Rightarrow> new_val n0 H' x)"
    proof (cases v)
      case (VRef a)
      with ov have a: "a < n0" by (simp add: old_val_def)
      with cl have len: "a < length H" and so: "source_ok n0 (H ! a)" by (simp_all add: cloning_def)
      then have hg: "heap_get H a = Some (H ! a)" and nf: "kind (H ! a) \<noteq> KFunction"
        by (simp_all add: heap_get_def source_ok_def)
      then have ty: "typeof H (VRef a) = TObject" by (simp add: typeof_def)
      note sv = source_vals [OF so]
      show ?thesis
      proof (cases "vis a")
        case (Some c)
        with res VRef ty hg have "r = Inr c" "H' = H" "vis' = vis" by simp_all
        moreover from Some cl have "new_val n0 H c" by (fastforce simp: cloning_def new_val_def)
        ultimately show ?thesis using cl by simp
      next
        case None
        note start = building_start [OF cl a]
        have props_ok: "\<forall>p\<in>set (Object_keys (H ! a) @ Object_getOwnPropertySymbols (H ! a)).
                          \<exists>v. slot p = Data v \<and> old_val n0 v"
          "\<forall>p\<in>set (Object_getOwnPropertyNames (H ! a) @ Object_getOwnPropertySymbols (H ! a)).
                          \<exists>v. slot p = Data v \<and> old_val n0 v"
          using sv(2) by (auto simp: Object_keys_def Object_getOwnPropertySymbols_def
              Object_getOwnPropertyNames_def)
        show ?thesis
        proof (cases "kind (H ! a)")
          case (KArray items)
          with sv(1) have "\<forall>v\<in>set items. old_val n0 v" by (simp add: kind_vals_def)
          from clone_items_spec [OF Suc start [of "KArray []"] this, of 0]
            finish_clone_spec [OF _ cl a None] res VRef ty hg None KArray
          show ?thesis by (simp add: kind_vals_def)
        next
          case (KMap es)
          with sv(1) have "\<forall>v\<in>set (flatten_entries es). old_val n0 v" by (simp add: kind_vals_def)
          from clone_entries_spec [OF Suc start [of "KMap []"] this]
            finish_clone_spec [OF _ cl a None] res VRef ty hg None KMap
          show ?thesis by (simp add: kind_vals_def)
        next
          case (KSet items)
          with sv(1) have "\<forall>v\<in>set items. old_val n0 v" by (simp add: kind_vals_def)
          from clone_members_spec [OF Suc start [of "KSet []"] this]
            finish_clone_spec [OF _ cl a None] res VRef ty hg None KSet
          show ?thesis by (simp add: kind_vals_def)
        next
          case (KDate t)
          with res VRef ty hg None
          have "r = Inr (VRef (length H))" "H' = H @ [new_object (KDate t)]" "vis' = vis"
            by simp_all
          moreover from cloning_alloc [OF cl, of "KDate t"]
          have "cloning n0 (H @ [new_object (KDate t)]) vis" by (simp add: kind_vals_def)
          moreover from cl have "n0 \<le> length H" by (simp add: cloning_def)
          ultimately show ?thesis by (simp add: new_val_def)
        next
          case (KRegExp src fl)
          with res VRef ty hg None
          have "r = Inr (VRef (length H))" "H' = H @ [new_object (KRegExp src fl)]" "vis' = vis"
            by simp_all
          moreover from cloning_alloc [OF cl, of "KRegExp src fl"]
          have "cloning n0 (H @ [new_object (KRegExp src fl)]) vis" by (simp add: kind_vals_def)
          moreover from cl have "n0 \<le> length H" by (simp add: cloning_def)
          ultimately show ?thesis by (simp add: new_val_def)
        next
          case KPlain
          have "kind ((H @ [new_object KPlain]) ! length H) = KPlain
              \<or> kind ((H @ [new_object KPlain]) ! length H) = KNullProto"
            by (simp add: new_object_def)
          from clone_assigned_spec [OF Suc start [of KPlain] this props_ok(1)]
            finish_clone_spec [OF _ cl a None] res VRef ty hg None KPlain
          show ?thesis by (simp add: kind_vals_def)
        next
          case KNullProto
          have "kind ((H @ [new_object KNullProto]) ! length H) = KPlain
              \<or> kind ((H @ [new_object KNullProto]) ! length H) = KNullProto"
            by (simp add: new_object_def)
          from clone_assigned_spec [OF Suc start [of KNullProto] this props_ok(1)]
            finish_clone_spec [OF _ cl a None] res VRef ty hg None KNullProto
          show ?thesis by (simp add: kind_vals_def)
        next
          case (KCustom q)
          have "kind ((H @ [new_object (KCustom q)]) ! length H) = KCustom q"
            by (simp add: new_object_def)
          from clone_described_spec [OF Suc start [of "KCustom q"] this props_ok(2)]
            finish_clone_spec [OF _ cl a None] res VRef ty hg None KCustom
          show ?thesis by (simp add: kind_vals_def)
        next
          case KFunction
          with nf show ?thesis by simp
        qed
      qed
    qed (use res cl in \<open>auto simp: typeof_def new_val_def split: prim.splits\<close>)
    with res show "case deepClone (Suc d) H v vis of
        (r, H', vis') \<Rightarrow> take (length H) H' = H \<and> cloning n0 H' vis' \<and> vis \<subseteq>\<^sub>m vis' \<and>
           (case r of Inl e \<Rightarrow> e = RangeError \<and> \<not> unvisited n0 vis < Suc d
            | Inr x \<Rightarrow> new_val n0 H' x)"
      by simp
  qed
qed

section \<open>Freezing and validating a clone\<close>

text \<open>A heap without functions and accessors declares no custom freeze.\<close>

lemma find_property_mem: "find_property k ps = Some p \<Longrightarrow> p \<in> set ps"
  by (induction ps) (auto split: if_splits)

lemma lookup_chain_mem:
  "lookup_chain n H a k = Some p \<Longrightarrow> \<exists>b<length H. p \<in> set (props (H ! b))"
proof (induction n arbitrary: a)
  case 0
  then show ?case by simp
next
  case (Suc n)
  then show ?case
    by (auto simp: heap_get_def dest: find_property_mem split: if_splits option.splits kind.splits)
qed

definition inert :: "heap \<Rightarrow> bool" where
  "inert H = (\<forall>ob\<in>set H. kind ob \<noteq> KFunction \<and> data_only ob)"

lemma inert_typeof: "inert H \<Longrightarrow> typeof H v \<noteq> TFunction"
  by (cases v) (auto simp: inert_def typeof_def heap_get_def split: prim.splits)

lemma inert_isFreezable:
  assumes "inert H"
  shows "isFreezable H v = Inr False"
proof (cases v)
  case (VRef a)
  show ?thesis
  proof (cases "lookup_chain (length H) H a (KStr ''freeze'')")
    case None
    with VRef show ?thesis by (simp add: isFreezable_def has_member_def)
  next
    case (Some p)
    from lookup_chain_mem [OF Some] obtain b where "b < length H" "p \<in> set (props (H ! b))"
      by blast
    moreover then have "H ! b \<in> set H" by simp
    ultimately obtain m where "slot p = Data m"
      using assms unfolding inert_def data_only_iff by blast
    with Some VRef inert_typeof [OF assms, of m] show ?thesis
      by (simp add: isFreezable_def has_member_def get_member_def read_prop_def)
  qed
qed (simp_all add: isFreezable_def)

lemma cloning_inert: "cloning n0 H vis \<Longrightarrow> inert H"
  unfolding inert_def
proof
  fix ob assume c: "cloning n0 H vis" and "ob \<in> set H"
  then obtain a where a: "a < length H" "ob = H ! a" by (auto simp: in_set_conv_nth)
  show "kind ob \<noteq> KFunction \<and> data_only ob"
  proof (cases "a < n0")
    case True
    with c a show ?thesis by (simp add: cloning_def source_ok_def)
  next
    case False
    with c a have "clone_ok n0 H ob" by (simp add: cloning_def)
    then show ?thesis by (auto simp: clone_ok_def tame_def)
  qed
qed

text \<open>The values the loop reads from an object without accessors.\<close>

lemma read_all_data:
  "\<forall>p\<in>set ps. \<exists>v. slot p = Data v \<Longrightarrow>
   \<exists>vs. read_all ps = Inr vs \<and> set vs \<subseteq> (\<Union>p\<in>set ps. set (slot_vals (slot p)))"
proof (induction ps)
  case Nil
  then show ?case by simp
next
  case (Cons p ps)
  then obtain v where v: "slot p = Data v" by auto
  from Cons obtain vs where "read_all ps = Inr vs"
    "set vs \<subseteq> (\<Union>p\<in>set ps. set (slot_vals (slot p)))" by auto
  with v show ?case by (auto simp: read_prop_def)
qed

lemma read_guarded_vals: "set (read_guarded ps) \<subseteq> (\<Union>p\<in>set ps. set (slot_vals (slot p)))"
proof (induction ps)
  case Nil
  then show ?case by simp
next
  case (Cons p ps)
  then show ?case
    by (cases "slot p") (auto simp: read_prop_def split: sum.splits)
qed

lemma pushed_subset: "a \<in> set (pushed H vs) \<Longrightarrow> VRef a \<in> set vs"
  by (induction vs) (auto split: val.splits if_splits)

lemma filter_props_vals:
  "(\<Union>p\<in>set (filter P (props ob) @ filter Q (props ob)). set (slot_vals (slot p)))
     \<subseteq> set (obj_vals ob)"
  by (auto simp: obj_vals_def)

lemma scheduled_vals:
  assumes "data_only ob"
  shows "\<exists>cs. scheduled H ob = Inr cs \<and> (\<forall>a\<in>set cs. VRef a \<in> set (obj_vals ob))"
proof -
  let ?ps = "Object_keys ob @ Object_getOwnPropertySymbols ob"
  have "\<forall>p\<in>set ?ps. \<exists>v. slot p = Data v"
    using assms by (auto simp: data_only_iff Object_keys_def Object_getOwnPropertySymbols_def)
  from read_all_data [OF this] obtain vs where vs: "read_all ?ps = Inr vs"
    "set vs \<subseteq> (\<Union>p\<in>set ?ps. set (slot_vals (slot p)))" by blast
  from vs(2) filter_props_vals [of _ ob] have vsub: "set vs \<subseteq> set (obj_vals ob)"
    unfolding Object_keys_def Object_getOwnPropertySymbols_def by blast
  have gsub: "set (read_guarded (Object_getOwnPropertyNames ob @ Object_getOwnPropertySymbols ob))
      \<subseteq> set (obj_vals ob)"
    using read_guarded_vals [of "Object_getOwnPropertyNames ob @ Object_getOwnPropertySymbols ob"]
      filter_props_vals [of _ ob]
    unfolding Object_getOwnPropertyNames_def Object_getOwnPropertySymbols_def by blast
  show ?thesis
  proof (cases "kind ob")
    case (KArray items)
    then show ?thesis
      by (auto simp: scheduled_def obj_vals_def kind_vals_def dest: pushed_subset)
  next
    case (KMap es)
    then show ?thesis
      by (auto simp: scheduled_def obj_vals_def kind_vals_def dest!: pushed_subset)
  next
    case (KSet items)
    then show ?thesis
      by (auto simp: scheduled_def obj_vals_def kind_vals_def dest: pushed_subset)
  next
    case KPlain
    with vs(1) vsub show ?thesis by (auto simp: scheduled_def dest!: pushed_subset)
  next
    case KNullProto
    with vs(1) vsub show ?thesis by (auto simp: scheduled_def dest!: pushed_subset)
  next
    case (KCustom q)
    with gsub show ?thesis by (auto simp: scheduled_def dest!: pushed_subset)
  next
    case KFunction
    with gsub show ?thesis by (auto simp: scheduled_def dest!: pushed_subset)
  qed (simp_all add: scheduled_def)
qed

text \<open>
  The new part of the heap is closed: its objects have data properties only and hold no
  reference to an old object.
\<close>

definition closed_new :: "nat \<Rightarrow> heap \<Rightarrow> bool" where
  "closed_new n0 H =
     (\<forall>ob\<in>set (drop n0 H). data_only ob \<and> (\<forall>v\<in>set (obj_vals ob). new_val n0 H v))"

lemma closed_new_iff:
  "closed_new n0 H \<longleftrightarrow>
     (\<forall>a. n0 \<le> a \<and> a < length H \<longrightarrow>
        data_only (H ! a) \<and> (\<forall>v\<in>set (obj_vals (H ! a)). new_val n0 H v))"
proof
  assume c: "closed_new n0 H"
  show "\<forall>a. n0 \<le> a \<and> a < length H \<longrightarrow>
        data_only (H ! a) \<and> (\<forall>v\<in>set (obj_vals (H ! a)). new_val n0 H v)"
  proof (intro allI impI)
    fix a assume a: "n0 \<le> a \<and> a < length H"
    then have "drop n0 H ! (a - n0) = H ! a" "a - n0 < length (drop n0 H)" by auto
    then have "H ! a \<in> set (drop n0 H)" by (metis nth_mem)
    with c show "data_only (H ! a) \<and> (\<forall>v\<in>set (obj_vals (H ! a)). new_val n0 H v)"
      unfolding closed_new_def by blast
  qed
next
  assume r: "\<forall>a. n0 \<le> a \<and> a < length H \<longrightarrow>
        data_only (H ! a) \<and> (\<forall>v\<in>set (obj_vals (H ! a)). new_val n0 H v)"
  show "closed_new n0 H"
    unfolding closed_new_def
  proof
    fix ob assume "ob \<in> set (drop n0 H)"
    then obtain i where i: "i < length (drop n0 H)" "ob = drop n0 H ! i"
      by (auto simp: in_set_conv_nth)
    then have "ob = H ! (n0 + i)" "n0 \<le> n0 + i \<and> n0 + i < length H" by simp_all
    with r show "data_only ob \<and> (\<forall>v\<in>set (obj_vals ob). new_val n0 H v)" by blast
  qed
qed

lemma cloning_closed_new: "cloning n0 H vis \<Longrightarrow> closed_new n0 H"
  by (simp add: cloning_def closed_new_iff clone_ok_def)

lemma obj_vals_frozen_flag [simp]: "obj_vals (ob\<lparr>frozen := b\<rparr>) = obj_vals ob"
  by (simp add: obj_vals_def)

lemma data_only_frozen_flag [simp]: "data_only (ob\<lparr>frozen := b\<rparr>) = data_only ob"
  by (simp add: data_only_iff)

lemma closed_new_refreezing:
  assumes "closed_new n0 H" and "refreezing H H'"
  shows "closed_new n0 H'"
  unfolding closed_new_iff
proof (intro allI impI)
  fix a assume a: "n0 \<le> a \<and> a < length H'"
  from assms(2) have len: "length H' = length H" by (simp add: refreezing_def)
  with a assms(2) obtain b where b: "H' ! a = (H ! a)\<lparr>frozen := b\<rparr>"
    by (auto simp: refreezing_def)
  from a len assms(1) have "data_only (H ! a) \<and> (\<forall>v\<in>set (obj_vals (H ! a)). new_val n0 H v)"
    by (simp add: closed_new_iff)
  moreover have "\<And>v. new_val n0 H' v = new_val n0 H v" using len by (simp add: new_val_def split: val.splits)
  ultimately show "data_only (H' ! a) \<and> (\<forall>v\<in>set (obj_vals (H' ! a)). new_val n0 H' v)"
    using b by simp
qed

lemma scheduled_at_new:
  assumes "closed_new n0 H" and "n0 \<le> a" and "a < length H"
  shows "\<exists>cs. scheduled_at H a = Inr cs \<and> (\<forall>c\<in>set cs. n0 \<le> c \<and> c < length H)"
proof -
  from assms have d: "data_only (H ! a)" and v: "\<forall>v\<in>set (obj_vals (H ! a)). new_val n0 H v"
    by (simp_all add: closed_new_iff)
  from scheduled_vals [OF d, of H] obtain cs where cs: "scheduled H (H ! a) = Inr cs"
    "\<forall>c\<in>set cs. VRef c \<in> set (obj_vals (H ! a))" by blast
  with v have "\<forall>c\<in>set cs. n0 \<le> c \<and> c < length H" by (force simp: new_val_def)
  with cs(1) assms(3) show ?thesis by (simp add: scheduled_at_def heap_get_def)
qed

lemma take_freeze: "n0 \<le> a \<Longrightarrow> take n0 (Object_freeze H a) = take n0 H"
  by (simp add: Object_freeze_def)

lemma freeze_loop_new:
  "closed_new n0 H \<Longrightarrow> \<forall>s\<in>set st. n0 \<le> s \<and> s < length H \<Longrightarrow>
   fst (freeze_loop H st vis) = None \<and> take n0 (snd (freeze_loop H st vis)) = take n0 H"
proof (induction H st vis rule: freeze_loop.induct)
  case (1 h visited)
  show ?case by simp
next
  case (2 h cur stack visited)
  show ?case
  proof (cases "cur \<in> visited \<or> Object_isFrozen h (VRef cur)")
    case True
    with "2.IH"(1) "2.prems" show ?thesis by simp
  next
    case False
    from "2.prems" have cur: "n0 \<le> cur" "cur < length h" by simp_all
    from scheduled_at_new [OF "2.prems"(1) cur] obtain cs where
      cs: "scheduled_at h cur = Inr cs" "\<forall>c\<in>set cs. n0 \<le> c \<and> c < length h" by blast
    have cn: "closed_new n0 (Object_freeze h cur)"
      using "2.prems"(1) refreezing_freeze by (rule closed_new_refreezing)
    have len: "length (Object_freeze h cur) = length h" by (simp add: Object_freeze_def)
    from cs(2) "2.prems"(2) len
    have st: "\<forall>s\<in>set (rev cs @ stack). n0 \<le> s \<and> s < length (Object_freeze h cur)" by auto
    from "2.IH"(2) [OF False cs(1) cn st] False cs(1) take_freeze [OF cur(1), of h]
    show ?thesis by simp
  qed
qed

lemma reach_new:
  assumes "closed_new n0 H" and "n0 \<le> s" and "s < length H"
  shows "reach H s a \<Longrightarrow> n0 \<le> a \<and> a < length H"
proof (induction rule: reach.induct)
  case reach_self
  from assms show ?case by simp
next
  case (reach_child b cs c)
  from scheduled_at_new [OF assms(1), of b] reach_child show ?case by auto
qed

text \<open>The values the deep-frozen predicate inspects in an object it found frozen.\<close>

definition validated :: "obj \<Rightarrow> val list" where
  "validated ob =
     (case kind ob of
        KArray items \<Rightarrow> items
      | KMap es \<Rightarrow> flatten_entries es
      | KSet items \<Rightarrow> items
      | _ \<Rightarrow> read_guarded (Object_getOwnPropertyNames ob))"

definition within :: "addr set \<Rightarrow> val \<Rightarrow> bool" where
  "within S v = (case v of VRef b \<Rightarrow> b \<in> S | _ \<Rightarrow> True)"

lemma card_Diff_visit:
  assumes "finite S" and "vis \<subseteq> vis'"
  shows "card (S - vis') \<le> card (S - vis)"
  using assms by (intro card_mono) auto

lemma every_child_true:
  assumes chk: "\<And>x vis. within S x \<Longrightarrow> card (S - vis) < d \<Longrightarrow>
                  \<exists>vis'. chk x vis = (Inr True, vis') \<and> vis \<subseteq> vis'"
    and fin: "finite S"
  shows "\<forall>x\<in>set xs. within S x \<Longrightarrow> card (S - vis) < d \<Longrightarrow>
         \<exists>vis'. every_child chk xs vis = (Inr True, vis') \<and> vis \<subseteq> vis'"
proof (induction xs arbitrary: vis)
  case Nil
  then show ?case by simp
next
  case (Cons x xs)
  from chk [of x vis] Cons.prems obtain vis1 where 1: "chk x vis = (Inr True, vis1)" "vis \<subseteq> vis1"
    by auto
  from card_Diff_visit [OF fin 1(2)] Cons.prems(2) have "card (S - vis1) < d" by simp
  from Cons.IH [OF _ this] Cons.prems(1) obtain vis' where
    "every_child chk xs vis1 = (Inr True, vis')" "vis1 \<subseteq> vis'" by auto
  with 1 show ?case by auto
qed

lemma every_property_true:
  assumes chk: "\<And>x vis. within S x \<Longrightarrow> card (S - vis) < d \<Longrightarrow>
                  \<exists>vis'. chk x vis = (Inr True, vis') \<and> vis \<subseteq> vis'"
    and fin: "finite S"
  shows "\<forall>x\<in>set (read_guarded ps). within S x \<Longrightarrow> card (S - vis) < d \<Longrightarrow>
         \<exists>vis'. every_property chk ps vis = (Inr True, vis') \<and> vis \<subseteq> vis'"
proof (induction ps arbitrary: vis)
  case Nil
  then show ?case by simp
next
  case (Cons p ps)
  show ?case
  proof (cases "read_prop p")
    case (Inl e)
    with Cons show ?thesis by simp
  next
    case (Inr x)
    with Cons.prems(1) have wx: "within S x" and rest: "\<forall>x\<in>set (read_guarded ps). within S x"
      by simp_all
    from chk [OF wx Cons.prems(2)] obtain vis1 where
      1: "chk x vis = (Inr True, vis1)" "vis \<subseteq> vis1" by auto
    from card_Diff_visit [OF fin 1(2)] Cons.prems(2) have "card (S - vis1) < d" by simp
    from Cons.IH [OF rest this] obtain vis' where
      "every_property chk ps vis1 = (Inr True, vis')" "vis1 \<subseteq> vis'" by auto
    with 1 Inr show ?thesis by auto
  qed
qed

lemma isFrozenImpl_true:
  assumes fin: "finite S"
    and ok: "\<And>a. a \<in> S \<Longrightarrow> a < length H \<and> frozen (H ! a) \<and> (\<forall>x\<in>set (validated (H ! a)). within S x)"
  shows "within S v \<Longrightarrow> card (S - vis) < d \<Longrightarrow>
         \<exists>vis'. isFrozenImpl d H v vis = (Inr True, vis') \<and> vis \<subseteq> vis'"
proof (induction d arbitrary: v vis)
  case 0
  then show ?case by simp
next
  case (Suc d)
  show ?case
  proof (cases v)
    case (VRef a)
    with Suc.prems(1) have aS: "a \<in> S" by (simp add: within_def)
    from ok [OF aS] have a: "a < length H" "frozen (H ! a)"
      and vals: "\<forall>x\<in>set (validated (H ! a)). within S x" by simp_all
    from a have hg: "heap_get H a = Some (H ! a)" and fr: "Object_isFrozen H (VRef a)"
      by (simp_all add: heap_get_def Object_isFrozen_def)
    from hg have ty: "\<not> (typeof H (VRef a) \<noteq> TObject \<and> typeof H (VRef a) \<noteq> TFunction)"
      by (simp add: typeof_def)
    show ?thesis
    proof (cases "a \<in> vis")
      case True
      with VRef hg ty show ?thesis by simp
    next
      case False
      with aS fin have "card (S - insert a vis) < card (S - vis)"
        by (intro psubset_card_mono) auto
      with Suc.prems(2) have cd: "card (S - insert a vis) < d" by simp
      have rec: "\<And>x vis. within S x \<Longrightarrow> card (S - vis) < d \<Longrightarrow>
                  \<exists>vis'. isFrozenImpl d H x vis = (Inr True, vis') \<and> vis \<subseteq> vis'"
        using Suc.IH by blast
      have "\<exists>vis'. (case kind (H ! a) of
                KArray items \<Rightarrow> every_child (isFrozenImpl d H) items (insert a vis)
              | KMap es \<Rightarrow> every_child (isFrozenImpl d H) (flatten_entries es) (insert a vis)
              | KSet items \<Rightarrow> every_child (isFrozenImpl d H) items (insert a vis)
              | _ \<Rightarrow> every_property (isFrozenImpl d H) (Object_getOwnPropertyNames (H ! a))
                      (insert a vis)) = (Inr True, vis') \<and> insert a vis \<subseteq> vis'"
        using vals every_child_true [of S d "isFrozenImpl d H", OF rec fin _ cd]
          every_property_true [of S d "isFrozenImpl d H", OF rec fin _ cd]
        by (cases "kind (H ! a)") (simp_all add: validated_def)
      then obtain vis' where "(case kind (H ! a) of
                KArray items \<Rightarrow> every_child (isFrozenImpl d H) items (insert a vis)
              | KMap es \<Rightarrow> every_child (isFrozenImpl d H) (flatten_entries es) (insert a vis)
              | KSet items \<Rightarrow> every_child (isFrozenImpl d H) items (insert a vis)
              | _ \<Rightarrow> every_property (isFrozenImpl d H) (Object_getOwnPropertyNames (H ! a))
                      (insert a vis)) = (Inr True, vis')" "insert a vis \<subseteq> vis'" by blast
      with VRef hg ty fr False show ?thesis by auto
    qed
  qed simp_all
qed

text \<open>What the predicate inspects in a clone, the freeze loop schedules.\<close>

lemma pushed_mem: "VRef b \<in> set vs \<Longrightarrow> is_object_child H (VRef b) \<Longrightarrow> b \<in> set (pushed H vs)"
  by (induction vs) (auto split: val.splits)

lemma read_all_guarded:
  "\<forall>p\<in>set ps. \<exists>v. slot p = Data v \<Longrightarrow> read_all ps = Inr (read_guarded ps)"
  by (induction ps) (auto simp: read_prop_def)

lemma read_guarded_append: "read_guarded (ps @ qs) = read_guarded ps @ read_guarded qs"
  by (induction ps) (auto split: sum.splits)

lemma validated_scheduled:
  assumes "tame ob" and "data_only ob"
    and "\<And>b. VRef b \<in> set (validated ob) \<Longrightarrow> is_object_child H (VRef b)"
  shows "\<exists>cs. scheduled H ob = Inr cs \<and> (\<forall>b. VRef b \<in> set (validated ob) \<longrightarrow> b \<in> set cs)"
proof -
  have names: "\<forall>p\<in>set (Object_getOwnPropertyNames ob @ Object_getOwnPropertySymbols ob).
      \<exists>v. slot p = Data v"
    using assms(2)
    by (auto simp: data_only_iff Object_getOwnPropertyNames_def Object_getOwnPropertySymbols_def)
  show ?thesis
  proof (cases "kind ob")
    case (KArray items)
    with assms(3) show ?thesis by (auto simp: scheduled_def validated_def intro: pushed_mem)
  next
    case (KMap es)
    with assms(3) show ?thesis by (auto simp: scheduled_def validated_def intro: pushed_mem)
  next
    case (KSet items)
    with assms(3) show ?thesis by (auto simp: scheduled_def validated_def intro: pushed_mem)
  next
    case (KDate t)
    with assms(1) show ?thesis
      by (simp add: scheduled_def validated_def tame_def Object_getOwnPropertyNames_def)
  next
    case (KRegExp src fl)
    with assms(1) show ?thesis
      by (simp add: scheduled_def validated_def tame_def Object_getOwnPropertyNames_def)
  next
    case KPlain
    with assms(1) have "Object_keys ob = Object_getOwnPropertyNames ob"
      by (auto simp: tame_def Object_keys_def Object_getOwnPropertyNames_def intro: filter_cong)
    with KPlain assms(3) read_all_guarded [OF names] show ?thesis
      by (auto simp: scheduled_def validated_def read_guarded_append intro: pushed_mem)
  next
    case KNullProto
    with assms(1) have "Object_keys ob = Object_getOwnPropertyNames ob"
      by (auto simp: tame_def Object_keys_def Object_getOwnPropertyNames_def intro: filter_cong)
    with KNullProto assms(3) read_all_guarded [OF names] show ?thesis
      by (auto simp: scheduled_def validated_def read_guarded_append intro: pushed_mem)
  next
    case (KCustom q)
    with assms(3) show ?thesis
      by (auto simp: scheduled_def validated_def read_guarded_append intro: pushed_mem)
  next
    case KFunction
    with assms(1) show ?thesis by (simp add: tame_def)
  qed
qed

lemma validated_vals: "set (validated ob) \<subseteq> set (obj_vals ob)"
proof -
  have "set (read_guarded (Object_getOwnPropertyNames ob)) \<subseteq> set (obj_vals ob)"
    using read_guarded_vals [of "Object_getOwnPropertyNames ob"]
    by (auto simp: obj_vals_def Object_getOwnPropertyNames_def)
  then show ?thesis
    by (cases "kind ob") (auto simp: validated_def obj_vals_def kind_vals_def)
qed

lemma validated_frozen_flag [simp]: "validated (ob\<lparr>frozen := b\<rparr>) = validated ob"
  by (simp add: validated_def Object_getOwnPropertyNames_def cong: kind.case_cong)

lemma unvisited_empty: "unvisited n0 Map.empty = n0"
proof -
  have "{a. a < n0 \<and> (Map.empty :: clone_map) a = None} = {..<n0}" by auto
  then show ?thesis by (simp add: unvisited_def)
qed

lemma cloning_initial:
  assumes "\<forall>ob\<in>set h. source_ok (length h) ob"
  shows "cloning (length h) h Map.empty"
  using assms by (auto simp: cloning_def)

text \<open>Enough call frames: the clone returns, and the engine's invariant holds of its result.\<close>

lemma deepClone_returns:
  assumes "\<forall>ob\<in>set h. source_ok (length h) ob" and "old_val (length h) v" and "length h < d"
  shows "\<exists>copy H' vis'. deepClone d h v Map.empty = (Inr copy, H', vis') \<and>
           take (length h) H' = h \<and> cloning (length h) H' vis' \<and> new_val (length h) H' copy"
proof -
  obtain r H' vis' where res: "deepClone d h v Map.empty = (r, H', vis')"
    by (cases "deepClone d h v Map.empty")
  from deepClone_spec [of "length h" d] cloning_initial [OF assms(1)] assms(2) res
  have sp: "take (length h) H' = h" "cloning (length h) H' vis'"
    "case r of Inl e \<Rightarrow> e = RangeError \<and> \<not> unvisited (length h) Map.empty < d
     | Inr x \<Rightarrow> new_val (length h) H' x"
    by (auto simp: cloner_spec_def split: prod.splits)
  show ?thesis
  proof (cases r)
    case (Inl e)
    with sp(3) assms(3) show ?thesis by (simp add: unvisited_empty)
  next
    case (Inr copy)
    with sp res show ?thesis by simp
  qed
qed

text \<open>Freezing a clone: the loop stays in the new part and freezes all it reaches.\<close>

lemma freeze_clone:
  assumes cl: "cloning n0 H vis" and nv: "new_val n0 H copy"
  shows "\<exists>H'. freeze call H copy = (Inr copy, H') \<and> take n0 H' = take n0 H \<and>
           length H' = length H \<and> closed_new n0 H' \<and>
           (\<forall>d. length H' < d \<longrightarrow> isFrozen d H' copy = Inr True)"
proof (cases copy)
  case (VRef c)
  with nv have c: "n0 \<le> c" "c < length H" by (simp_all add: new_val_def)
  from cl c have ok: "clone_ok n0 H (H ! c)" by (rule cloning_clone_ok)
  from cl have inert: "inert H" by (rule cloning_inert)
  from cl have cn: "closed_new n0 H" by (rule cloning_closed_new)
  from ok c have nf: "\<not> Object_isFrozen H (VRef c)"
    by (simp add: Object_isFrozen_def heap_get_def clone_ok_def)
  from c inert_typeof [OF inert, of "VRef c"] have ty: "typeof H (VRef c) = TObject"
    by (simp add: typeof_def heap_get_def split: if_splits)
  obtain e H' where run: "freeze_loop H [c] {} = (e, H')" by (cases "freeze_loop H [c] {}")
  from freeze_loop_new [OF cn, of "[c]" "{}"] c run
  have e: "e = None" and tk: "take n0 H' = take n0 H" by simp_all
  from nf ty inert_isFreezable [OF inert, of "VRef c"] run e
  have fz: "freeze call H (VRef c) = (Inr (VRef c), H')" by (simp add: freeze_def)
  from freeze_loop_refreezing [of H "[c]" "{}"] run have rf: "refreezing H H'" by simp
  then have len: "length H' = length H" by (simp add: refreezing_def)
  from cn rf have cn': "closed_new n0 H'" by (rule closed_new_refreezing)
  let ?S = "{a. reach H c a}"
  have sub: "?S \<subseteq> {n0..<length H}" using reach_new [OF cn c] by auto
  then have fin: "finite ?S" by (rule finite_subset) simp
  have okS: "a < length H' \<and> frozen (H' ! a) \<and> (\<forall>x\<in>set (validated (H' ! a)). within ?S x)"
    if "a \<in> ?S" for a
  proof -
    from that have ra: "reach H c a" by simp
    with sub have a: "n0 \<le> a" "a < length H" by auto
    from run e have "freeze_loop H [c] {} = (None, H')" by simp
    from freeze_loop_reach [OF this _ _ ra] have "Object_isFrozen H' (VRef a)" by simp
    with a len have fr: "frozen (H' ! a)" by (simp add: Object_isFrozen_def heap_get_def)
    from rf a obtain b where b: "H' ! a = (H ! a)\<lparr>frozen := b\<rparr>" by (auto simp: refreezing_def)
    from cl a have oka: "clone_ok n0 H (H ! a)" by (simp add: cloning_def)
    then have nfa: "\<not> Object_isFrozen H (VRef a)"
      using a by (simp add: Object_isFrozen_def heap_get_def clone_ok_def)
    have child: "is_object_child H (VRef x)" if "VRef x \<in> set (validated (H ! a))" for x
    proof -
      from that validated_vals [of "H ! a"] oka have "new_val n0 H (VRef x)"
        by (auto simp: clone_ok_def)
      then have "x < length H" by (simp add: new_val_def)
      with inert_typeof [OF inert, of "VRef x"] show ?thesis
        by (simp add: is_object_child_def typeof_def heap_get_def split: if_splits)
    qed
    from oka have "tame (H ! a)" "data_only (H ! a)" by (simp_all add: clone_ok_def)
    from validated_scheduled [OF this child] obtain cs where
      cs: "scheduled H (H ! a) = Inr cs" "\<forall>x. VRef x \<in> set (validated (H ! a)) \<longrightarrow> x \<in> set cs"
      by blast
    from cs(1) a have sa: "scheduled_at H a = Inr cs" by (simp add: scheduled_at_def heap_get_def)
    have "\<forall>x\<in>set (validated (H ! a)). within ?S x"
    proof
      fix x assume x: "x \<in> set (validated (H ! a))"
      show "within ?S x"
      proof (cases x)
        case (VRef y)
        with x cs(2) have "y \<in> set cs" by simp
        from reach_child [OF ra nfa sa this] VRef show ?thesis by (simp add: within_def)
      qed (simp_all add: within_def)
    qed
    with a len fr b show ?thesis by simp
  qed
  have "isFrozen d H' (VRef c) = Inr True" if d: "length H' < d" for d
  proof -
    from sub have "card ?S \<le> card {n0..<length H}" by (intro card_mono) auto
    with d len have "card (?S - {}) < d" by simp
    moreover have "within ?S (VRef c)" by (simp add: within_def reach_self)
    ultimately obtain vis' where "isFrozenImpl d H' (VRef c) {} = (Inr True, vis')"
      using isFrozenImpl_true [of ?S H' "VRef c" "{}" d, OF fin okS] by blast
    then show ?thesis by (simp add: isFrozen_def)
  qed
  with fz tk len cn' VRef show ?thesis by blast
next
  case VUndefined
  have "isFrozen d H VUndefined = Inr True" if "length H < d" for d
    using that by (cases d) (simp_all add: isFrozen_def)
  with VUndefined cloning_closed_new [OF cl] show ?thesis by (simp add: freeze_def)
next
  case VNull
  have "isFrozen d H VNull = Inr True" if "length H < d" for d
    using that by (cases d) (simp_all add: isFrozen_def)
  with VNull cloning_closed_new [OF cl] show ?thesis by (simp add: freeze_def)
next
  case (VPrim p)
  have ty: "typeof H (VPrim p) \<noteq> TObject \<and> typeof H (VPrim p) \<noteq> TFunction"
    by (cases p) (simp_all add: typeof_def)
  then have "isFrozen d H (VPrim p) = Inr True" if "length H < d" for d
    using that by (cases d) (simp_all add: isFrozen_def)
  with VPrim ty cloning_closed_new [OF cl] show ?thesis by (simp add: freeze_def)
qed

lemma frozenCopy_result:
  assumes "\<forall>ob\<in>set h. source_ok (length h) ob" and "old_val (length h) v" and "length h < d"
  shows "\<exists>copy h'. frozenCopy d call h v = (Inr copy, h') \<and>
           take (length h) h' = h \<and>
           new_val (length h) h' copy \<and>
           closed_new (length h) h' \<and>
           (\<forall>d'. length h' < d' \<longrightarrow> isFrozen d' h' copy = Inr True)"
proof -
  from deepClone_returns [OF assms] obtain copy H' vis' where
    dc: "deepClone d h v Map.empty = (Inr copy, H', vis')" and tk: "take (length h) H' = h"
    and cl: "cloning (length h) H' vis'" and nv: "new_val (length h) H' copy" by blast
  from freeze_clone [OF cl nv, of call] obtain h' where
    fz: "freeze call H' copy = (Inr copy, h')" "take (length h) h' = take (length h) H'"
    "length h' = length H'" "closed_new (length h) h'"
    "\<forall>d. length h' < d \<longrightarrow> isFrozen d h' copy = Inr True" by blast
  from nv fz(3) have "new_val (length h) h' copy" by (simp add: new_val_def split: val.splits)
  with dc fz tk show ?thesis by (simp add: frozenCopy_def)
qed



section \<open>Claim C5: copy independence\<close>



lemmas graph_defs = source_ok_def data_only_iff obj_vals_def kind_vals_def old_val_def




section \<open>Claim C2: call depth\<close>

text \<open>
  A linear chain of \<open>n\<close> nested single-property containers: container \<open>i\<close> holds container
  \<open>i + 1\<close> under \<open>child\<close>, the innermost holds \<open>null\<close>. \<open>fr i\<close> tells whether container \<open>i\<close>
  is frozen.
\<close>

definition chain_link :: "bool \<Rightarrow> nat \<Rightarrow> nat \<Rightarrow> obj" where
  "chain_link fr n i =
     plain_object fr [data_prop ''child'' (if Suc i < n then VRef (Suc i) else VNull)]"

definition chain :: "(nat \<Rightarrow> bool) \<Rightarrow> nat \<Rightarrow> heap" where
  "chain fr n = map (\<lambda>i. chain_link (fr i) n i) [0..<n]"

lemma chain_length [simp]: "length (chain fr n) = n"
  by (simp add: chain_def)

lemma chain_nth [simp]: "i < n \<Longrightarrow> chain fr n ! i = chain_link (fr i) n i"
  by (simp add: chain_def)

lemma chain_source_ok: "\<forall>ob\<in>set (chain fr n). source_ok (length (chain fr n)) ob"
  by (auto simp: chain_def chain_link_def graph_defs example_defs)

lemma chain_scheduled:
  assumes "i < n"
  shows "scheduled_at (chain fr n) i = Inr (if Suc i < n then [Suc i] else [])"
  using assms
  by (simp add: scheduled_at_def scheduled_def chain_link_def platform_defs example_defs)

lemma chain_reach: "i < n \<Longrightarrow> reach (chain (\<lambda>i. False) n) 0 i"
proof (induction i)
  case 0
  show ?case by (rule reach_self)
next
  case (Suc i)
  then have r: "reach (chain (\<lambda>i. False) n) 0 i" by simp
  from Suc.prems have nf: "\<not> Object_isFrozen (chain (\<lambda>i. False) n) (VRef i)"
    by (simp add: Object_isFrozen_def heap_get_def chain_link_def plain_object_def)
  from Suc.prems chain_scheduled [of i n "\<lambda>i. False"]
  have sc: "scheduled_at (chain (\<lambda>i. False) n) i = Inr [Suc i]" by simp
  from reach_child [OF r nf sc] show ?case by simp
qed

lemma chain_inert: "inert (chain fr n)"
  by (auto simp: inert_def chain_def chain_link_def data_only_iff example_defs)

lemma chain_closed: "closed_new 0 (chain fr n)"
  by (auto simp: closed_new_iff chain_link_def data_only_iff obj_vals_def kind_vals_def
      new_val_def example_defs)

lemma freeze_chain:
  assumes "0 < n"
  shows "freeze call (chain (\<lambda>i. False) n) (VRef 0) = (Inr (VRef 0), chain (\<lambda>i. True) n)"
proof -
  let ?h = "chain (\<lambda>i. False) n"
  obtain e h' where run: "freeze_loop ?h [0] {} = (e, h')" by (cases "freeze_loop ?h [0] {}")
  from freeze_loop_new [OF chain_closed, of "[0]" "\<lambda>i. False" n "{}"] assms run
  have e: "e = None" by simp
  from freeze_loop_refreezing [of ?h "[0]" "{}"] run have rf: "refreezing ?h h'" by simp
  then have len: "length h' = n" by (simp add: refreezing_def)
  have "h' = chain (\<lambda>i. True) n"
  proof (rule nth_equalityI)
    show "length h' = length (chain (\<lambda>i. True) n)" using len by simp
    fix i assume "i < length h'"
    with len have i: "i < n" by simp
    from run e have "freeze_loop ?h [0] {} = (None, h')" by simp
    from freeze_loop_reach [OF this _ _ chain_reach [OF i]]
    have "Object_isFrozen h' (VRef i)" by simp
    with i len have fr: "frozen (h' ! i)" by (simp add: Object_isFrozen_def heap_get_def)
    from rf i obtain b where "h' ! i = (?h ! i)\<lparr>frozen := b\<rparr>" by (auto simp: refreezing_def)
    with fr i show "h' ! i = chain (\<lambda>i. True) n ! i"
      by (simp add: chain_link_def plain_object_def)
  qed
  moreover from assms have "\<not> Object_isFrozen ?h (VRef 0)"
    by (simp add: Object_isFrozen_def heap_get_def chain_link_def plain_object_def)
  moreover from assms have "typeof ?h (VRef 0) = TObject"
    by (simp add: typeof_def heap_get_def chain_link_def plain_object_def)
  ultimately show ?thesis
    using run e inert_isFreezable [OF chain_inert, of "\<lambda>i. False" n "VRef 0"]
    by (simp add: freeze_def)
qed

lemma isFrozen_frozen_chain:
  assumes "n < d"
  shows "isFrozen d (chain (\<lambda>i. True) n) (VRef 0) = Inr True"
proof (cases "n = 0")
  case True
  with assms show ?thesis by (cases d) (simp_all add: isFrozen_def typeof_def heap_get_def)
next
  case False
  let ?S = "{..<n}"
  have ok: "a < length (chain (\<lambda>i. True) n) \<and> frozen (chain (\<lambda>i. True) n ! a) \<and>
            (\<forall>x\<in>set (validated (chain (\<lambda>i. True) n ! a)). within ?S x)" if "a \<in> ?S" for a
    using that
    by (simp add: chain_link_def validated_def within_def Object_getOwnPropertyNames_def
        read_prop_def example_defs)
  from False have "within ?S (VRef 0)" by (simp add: within_def)
  moreover from assms have "card (?S - {}) < d" by simp
  ultimately obtain vis' where "isFrozenImpl d (chain (\<lambda>i. True) n) (VRef 0) {} = (Inr True, vis')"
    using isFrozenImpl_true [of ?S "chain (\<lambda>i. True) n" "VRef 0" "{}" d, OF _ ok] by blast
  then show ?thesis by (simp add: isFrozen_def)
qed

text \<open>With at most \<open>n\<close> frames the clone of a chain of \<open>n\<close> containers exhausts the stack.\<close>

definition chain_val :: "nat \<Rightarrow> nat \<Rightarrow> val" where
  "chain_val n i = (if i < n then VRef i else VNull)"

lemma deepClone_chain_overflow:
  "d \<le> n - i \<Longrightarrow> n \<le> length H \<Longrightarrow> \<forall>j<n. H ! j = chain_link (fr j) n j \<Longrightarrow>
   \<forall>j\<ge>i. vis j = None \<Longrightarrow> fst (deepClone d H (chain_val n i) vis) = Inl RangeError"
proof (induction d arbitrary: i H vis)
  case 0
  show ?case by simp
next
  case (Suc d)
  from Suc.prems(1) have i: "i < n" and d: "d \<le> n - Suc i" by simp_all
  let ?H1 = "H @ [new_object KPlain]"
  let ?vis1 = "vis(i \<mapsto> VRef (length H))"
  from Suc.prems(2,3) have pre: "n \<le> length ?H1" "\<forall>j<n. ?H1 ! j = chain_link (fr j) n j"
    by (simp_all add: nth_append)
  from Suc.prems(4) have v1: "\<forall>j\<ge>Suc i. ?vis1 j = None" by auto
  from Suc.IH [OF d pre v1]
  have rec: "fst (deepClone d ?H1 (chain_val n (Suc i)) ?vis1) = Inl RangeError" .
  obtain r H2 vis2 where r: "deepClone d ?H1 (chain_val n (Suc i)) ?vis1 = (r, H2, vis2)"
    by (cases "deepClone d ?H1 (chain_val n (Suc i)) ?vis1")
  with rec have "r = Inl RangeError" by simp
  with r i Suc.prems(2,3,4) show ?case
    by (simp add: chain_val_def chain_link_def typeof_def heap_get_def finish_clone_def
        Object_keys_def Object_getOwnPropertySymbols_def read_prop_def example_defs)
qed

lemma frozenCopy_chain_overflow:
  assumes "0 < n" and "d \<le> n"
  shows "fst (frozenCopy d call (chain fr n) (VRef 0)) = Inl RangeError"
proof -
  from assms(1) have v: "chain_val n 0 = VRef 0" by (simp add: chain_val_def)
  from deepClone_chain_overflow [of d n 0 "chain fr n" fr Map.empty] assms(2) v
  have "fst (deepClone d (chain fr n) (VRef 0) Map.empty) = Inl RangeError" by simp
  then show ?thesis
    by (cases "deepClone d (chain fr n) (VRef 0) Map.empty") (simp add: frozenCopy_def)
qed

text \<open>
  The predicate on a chain whose innermost container alone is not frozen: with fewer than
  \<open>n\<close> frames the exhausted stack is swallowed by the handler of a property loop.
\<close>

lemma isFrozenImpl_open_chain:
  "i < n \<Longrightarrow> \<forall>j\<ge>i. j \<notin> vis \<Longrightarrow>
   fst (isFrozenImpl d (chain (\<lambda>j. Suc j < n) n) (VRef i) vis) =
     (if d = 0 then Inl RangeError else if n - i \<le> d then Inr False else Inr True)"
proof (induction d arbitrary: i vis)
  case 0
  show ?case by simp
next
  case (Suc d)
  let ?h = "chain (\<lambda>j. Suc j < n) n"
  from Suc.prems have hg: "heap_get ?h i = Some (chain_link (Suc i < n) n i)"
    by (simp add: heap_get_def)
  show ?case
  proof (cases "Suc i < n")
    case False
    with Suc.prems hg show ?thesis
      by (simp add: typeof_def Object_isFrozen_def chain_link_def plain_object_def)
  next
    case True
    from Suc.prems(2) have v1: "\<forall>j\<ge>Suc i. j \<notin> insert i vis" by auto
    from Suc.IH [OF True v1]
    have rec: "fst (isFrozenImpl d ?h (VRef (Suc i)) (insert i vis)) =
        (if d = 0 then Inl RangeError else if n - Suc i \<le> d then Inr False else Inr True)" .
    obtain r vis2 where r: "isFrozenImpl d ?h (VRef (Suc i)) (insert i vis) = (r, vis2)"
      by (cases "isFrozenImpl d ?h (VRef (Suc i)) (insert i vis)")
    from Suc.prems have ni: "i \<notin> vis" by simp
    from True hg ni r rec show ?thesis
      by (auto simp: typeof_def Object_isFrozen_def chain_link_def Object_getOwnPropertyNames_def
          read_prop_def example_defs split: if_splits)
  qed
qed

lemma isFrozen_open_chain:
  assumes "0 < n" and "0 < d"
  shows "isFrozen d (chain (\<lambda>j. Suc j < n) n) (VRef 0) = (if n \<le> d then Inr False else Inr True)"
  using isFrozenImpl_open_chain [of 0 n "{}" d] assms by (simp add: isFrozen_def)

text \<open>The chain not frozen, the chain frozen, and the chain frozen but for its innermost container.\<close>

definition unfrozen_chain :: "nat \<Rightarrow> heap" where
  "unfrozen_chain n = chain (\<lambda>i. False) n"

definition frozen_chain :: "nat \<Rightarrow> heap" where
  "frozen_chain n = chain (\<lambda>i. True) n"

definition open_chain :: "nat \<Rightarrow> heap" where
  "open_chain n = chain (\<lambda>i. Suc i < n) n"

text \<open>
  Claim C2, as amended. \<open>freeze\<close> walks with an explicit work stack and calls nothing
  recursively: on a chain of \<open>n\<close> nested single-property containers it returns, all
  containers frozen, whatever the call depth. The deep clone of \<open>frozenCopy\<close> and \<open>isFrozen\<close>
  call themselves once per level: with more than \<open>n\<close> frames \<open>frozenCopy\<close> returns and
  \<open>isFrozen\<close> answers true on the frozen chain; with at most \<open>n\<close> frames \<open>frozenCopy\<close> raises
  \<open>RangeError\<close>; and on a chain whose innermost container alone is not frozen \<open>isFrozen\<close>
  answers false only with at least \<open>n\<close> frames, with fewer the exhausted stack is swallowed
  by the handler of the property loop and the answer is true.
\<close>

theorem traversal_call_depth:
  assumes "0 < n"
  shows "freeze call (unfrozen_chain n) (VRef 0) = (Inr (VRef 0), frozen_chain n) \<and>
         (n < d \<longrightarrow>
            (\<exists>copy h'. frozenCopy d call (unfrozen_chain n) (VRef 0) = (Inr copy, h')) \<and>
            isFrozen d (frozen_chain n) (VRef 0) = Inr True) \<and>
         (d \<le> n \<longrightarrow> fst (frozenCopy d call (unfrozen_chain n) (VRef 0)) = Inl RangeError) \<and>
         (0 < d \<longrightarrow>
            isFrozen d (open_chain n) (VRef 0) = (if n \<le> d then Inr False else Inr True))"
proof (intro conjI impI)
  from assms show "freeze call (unfrozen_chain n) (VRef 0) = (Inr (VRef 0), frozen_chain n)"
    unfolding unfrozen_chain_def frozen_chain_def by (rule freeze_chain)
next
  assume d: "n < d"
  from assms have "old_val (length (chain (\<lambda>i. False) n)) (VRef 0)" by (simp add: old_val_def)
  from frozenCopy_result [OF chain_source_ok this, of d call] d
  show "\<exists>copy h'. frozenCopy d call (unfrozen_chain n) (VRef 0) = (Inr copy, h')"
    unfolding unfrozen_chain_def by auto
  from d show "isFrozen d (frozen_chain n) (VRef 0) = Inr True"
    unfolding frozen_chain_def by (rule isFrozen_frozen_chain)
next
  assume "d \<le> n"
  with assms show "fst (frozenCopy d call (unfrozen_chain n) (VRef 0)) = Inl RangeError"
    unfolding unfrozen_chain_def by (rule frozenCopy_chain_overflow)
next
  assume "0 < d"
  with assms show "isFrozen d (open_chain n) (VRef 0) = (if n \<le> d then Inr False else Inr True)"
    unfolding open_chain_def by (rule isFrozen_open_chain)
qed

theorem traversal_call_depth_witness:
  "freeze idle_call (unfrozen_chain 1000) (VRef 0) = (Inr (VRef 0), frozen_chain 1000) \<and>
   (\<exists>copy h'. frozenCopy 1001 idle_call (unfrozen_chain 1000) (VRef 0) = (Inr copy, h')) \<and>
   isFrozen 1001 (frozen_chain 1000) (VRef 0) = Inr True \<and>
   isFrozen 1000 (open_chain 1000) (VRef 0) = Inr False"
  using traversal_call_depth [of 1000 idle_call 1001] traversal_call_depth [of 1000 idle_call 1000]
  by simp

text \<open>
  The claim as stated fails: the call stack grows with the depth of the graph. With 1000
  frames \<open>frozenCopy\<close> of a chain of 1000 containers exhausts the stack, and with 999
  frames \<open>isFrozen\<close> answers true on a chain of 1000 whose innermost container is mutable.
\<close>

theorem frozenCopy_exhausts_call_depth:
  "fst (frozenCopy 1000 idle_call (unfrozen_chain 1000) (VRef 0)) = Inl RangeError \<and>
   \<not> Object_isFrozen (open_chain 1000) (VRef 999) \<and>
   isFrozen 999 (open_chain 1000) (VRef 0) = Inr True"
proof -
  have "fst (frozenCopy 1000 idle_call (unfrozen_chain 1000) (VRef 0)) = Inl RangeError"
    unfolding unfrozen_chain_def by (rule frozenCopy_chain_overflow) simp_all
  moreover have "\<not> Object_isFrozen (open_chain 1000) (VRef 999)"
    by (simp add: open_chain_def Object_isFrozen_def heap_get_def chain_link_def plain_object_def)
  moreover have "isFrozen 999 (open_chain 1000) (VRef 0) = Inr True"
    unfolding open_chain_def using isFrozen_open_chain [of 1000 999] by simp
  ultimately show ?thesis by blast
qed

end
